theory Spec2Isabelle
  imports Main "HOL-Library.Word"
begin

unbundle bit_operations_syntax

section \<open>tools.h: direct port reads\<close>

text \<open>
  \<^verbatim>\<open>#define BRIDGE_READ(base, mask) (*(base + 0) & mask) ? 1 : 0\<close>

  The first argument of the model is the byte found at \<^verbatim>\<open>*base\<close> when the macro is
  evaluated; the result is the raw level of the line.  The macro body is not
  parenthesised: \<^verbatim>\<open>!BRIDGE_READ(port, mask)\<close> expands to
  \<^verbatim>\<open>!(*(port + 0) & mask) ? 1 : 0\<close>, which is written out as \<open>NOT_BRIDGE_READ\<close>.
\<close>

definition BRIDGE_READ :: "8 word \<Rightarrow> 8 word \<Rightarrow> bool" where
  "BRIDGE_READ base bitmask = (if base AND bitmask \<noteq> 0 then True else False)"

definition NOT_BRIDGE_READ :: "8 word \<Rightarrow> 8 word \<Rightarrow> bool" where
  "NOT_BRIDGE_READ base bitmask = (if \<not> (base AND bitmask \<noteq> 0) then True else False)"

section \<open>DigitalInput.h: the instance\<close>

text \<open>
  \<^verbatim>\<open>uintptr_t\<close> tokens are opaque numbers.  A function pointer is \<open>Some\<close> of the code
  it points to, \<open>None\<close> is \<^verbatim>\<open>nullptr\<close>.  The fields \<^verbatim>\<open>function\<close> and \<^verbatim>\<open>mask\<close> are
  called \<open>function_ptr\<close> and \<open>bitmask\<close>; both source names are taken in HOL.
\<close>

type_synonym Data = nat

record 'f DigitalInput =
  port :: nat
  bitmask :: "8 word"
  function_ptr :: "'f option"
  functionData :: "'f option"
  data :: Data
  pin :: "8 word"
  interruptible :: bool
  asyncCount :: "32 word"
  asyncState :: bool
  syncCount :: "32 word"
  syncState :: bool

text \<open>
  What a call of \<^verbatim>\<open>Step\<close> does to the outside: the handler invocations, in order.
  \<open>Call_function f b\<close> is \<^verbatim>\<open>function(this, b)\<close>, \<open>Call_functionData g b d\<close> is
  \<^verbatim>\<open>functionData(this, b, d)\<close>.  Handlers are opaque: they do not write to the instance.
\<close>

datatype 'f call = Call_function 'f bool | Call_functionData 'f bool Data

text \<open>
  The ways the code can leave defined behaviour: a call through a null function
  pointer, \<^verbatim>\<open>c++\<close> on an \<^verbatim>\<open>int c\<close> that already holds \<^verbatim>\<open>INT_MAX\<close>, and \<^verbatim>\<open>map[i]\<close> in meta.h
  with an index \<open>i\<close> the array does not have.
\<close>

datatype error = NullCall | SignedOverflow | OutOfBounds nat

text \<open>
  \<^verbatim>\<open>int\<close> has 16 bits on the AVR boards whose port registers tools.h addresses
  (\<^verbatim>\<open>base + 1\<close>, \<^verbatim>\<open>base + 2\<close>); 32767 is also the least \<^verbatim>\<open>INT_MAX\<close> the language allows.
\<close>

definition INT_MAX :: int where
  "INT_MAX = 32767"

subsection \<open>OnChange\<close>

text \<open>
  \<^verbatim>\<open>asyncState = BRIDGE_READ(port, mask); asyncCount += 1;\<close>
  \<open>base\<close> is the byte at \<^verbatim>\<open>*port\<close> when the service routine runs.
\<close>

definition OnChange :: "8 word \<Rightarrow> 'f DigitalInput \<Rightarrow> 'f DigitalInput" where
  "OnChange base s =
     (let s1 = s\<lparr>asyncState := BRIDGE_READ base (bitmask s)\<rparr>
      in s1\<lparr>asyncCount := asyncCount s1 + 1\<rparr>)"

subsection \<open>Step\<close>

text \<open>
  The body of each of the two loops of \<^verbatim>\<open>Step\<close>, after \<^verbatim>\<open>syncState = !syncState\<close>:
  \<^verbatim>\<open>function(this, syncState)\<close> in the first, \<^verbatim>\<open>functionData(this, syncState, data)\<close> in
  the second, where nothing has tested \<^verbatim>\<open>functionData\<close>.
\<close>

definition call_function :: "'f \<Rightarrow> 'f DigitalInput \<Rightarrow> error + 'f call" where
  "call_function f s = Inr (Call_function f (syncState s))"

definition call_functionData :: "'f DigitalInput \<Rightarrow> error + 'f call" where
  "call_functionData s =
     (case functionData s of
        None \<Rightarrow> Inl NullCall
      | Some g \<Rightarrow> Inr (Call_functionData g (syncState s) (data s)))"

text \<open>
  \<^verbatim>\<open>for (int c = 0; c < change; c++) { syncState = !syncState; <body> }\<close>

  \<open>c\<close> is an \<^verbatim>\<open>int\<close>, \<open>change\<close> a \<^verbatim>\<open>uint32_t\<close>: the comparison converts \<open>c\<close>, which is
  never negative here, to the unsigned type, so it compares the values.  \<^verbatim>\<open>c++\<close> at
  \<^verbatim>\<open>INT_MAX\<close> is a signed overflow.  \<open>out\<close> collects the calls made so far.
\<close>

function for_loop ::
  "('f DigitalInput \<Rightarrow> error + 'f call) \<Rightarrow> int \<Rightarrow> 32 word \<Rightarrow> 'f DigitalInput \<Rightarrow> 'f call list
     \<Rightarrow> error + 'f DigitalInput \<times> 'f call list" where
  "for_loop body c change s out =
     (if c < uint change then
        (let s1 = s\<lparr>syncState := \<not> syncState s\<rparr> in
         case body s1 of
           Inl e \<Rightarrow> Inl e
         | Inr k \<Rightarrow>
             if c = INT_MAX then Inl SignedOverflow
             else for_loop body (c + 1) change s1 (out @ [k]))
      else Inr (s, out))"
  by pat_completeness auto
termination
  by (relation "measure (\<lambda>(body, c, change, s, out). nat (uint change - c))") auto

declare for_loop.simps [simp del]

text \<open>
  The first part of \<^verbatim>\<open>Step\<close>: the locals \<open>state\<close>, \<open>count\<close> and \<open>change\<close>.  \<open>base\<close> is
  the byte at \<^verbatim>\<open>*port\<close> when \<^verbatim>\<open>Step\<close> runs; only the polling branch reads it.
  \<^verbatim>\<open>noInterrupts()\<close> and \<^verbatim>\<open>interrupts()\<close> make the two reads of the interrupt branch one
  step.  \<open>state\<close> is assigned in both branches and used only in the comparison of the
  polling branch.
\<close>

definition reconcile :: "8 word \<Rightarrow> 'f DigitalInput \<Rightarrow> bool \<times> 32 word \<times> 32 word" where
  "reconcile base s =
     (if interruptible s then
        (asyncState s, asyncCount s, asyncCount s - syncCount s)
      else
        (let state = BRIDGE_READ base (bitmask s) in
         if state = syncState s then (state, syncCount s, 0)
         else (state, syncCount s + 1, 1)))"

text \<open>The second part: the two loops under \<^verbatim>\<open>if (change > 0)\<close>, then \<^verbatim>\<open>syncCount = count\<close>.\<close>

definition Step :: "8 word \<Rightarrow> 'f DigitalInput \<Rightarrow> error + 'f DigitalInput \<times> 'f call list" where
  "Step base s =
     (let (state, count, change) = reconcile base s
      in if change > 0 then
           (case (case function_ptr s of
                    Some f \<Rightarrow> for_loop (call_function f) 0 change s []
                  | None \<Rightarrow> for_loop call_functionData 0 change s []) of
              Inl e \<Rightarrow> Inl e
            | Inr (s1, out) \<Rightarrow> Inr (s1\<lparr>syncCount := count\<rparr>, out))
         else Inr (s, []))"

definition GetState :: "'f DigitalInput \<Rightarrow> bool" where
  "GetState s = syncState s"

definition GetPin :: "'f DigitalInput \<Rightarrow> 8 word" where
  "GetPin s = pin s"

section \<open>meta.h: the table of wrappers\<close>

text \<open>
  A \<^verbatim>\<open>Function\<close> that is not null is the address of one instance of the template
  \<^verbatim>\<open>Wrapper<id>\<close>.  The callbacks stored in the table have type \<open>'g\<close>.
\<close>

datatype Function = Wrapper nat

record 'g Map =
  map_data :: Data
  map_functionData :: "'g option"
  map_function :: "Function option"

definition Map_ctor :: "'g Map" where
  "Map_ctor = \<lparr>map_data = 0, map_functionData = None, map_function = None\<rparr>"

definition BRIDGE_MAX_WRAPPERS :: nat where
  "BRIDGE_MAX_WRAPPERS = 8"

text \<open>
  The statics of the header: \<^verbatim>\<open>uid\<close>, \<^verbatim>\<open>Map map[BRIDGE_MAX_WRAPPERS]\<close> (here \<open>map_table\<close>, a
  list of that many cells) and the flag of the function-local static \<^verbatim>\<open>once\<close>.  \<^verbatim>\<open>uid\<close> is
  an \<^verbatim>\<open>int\<close> that starts at 0 and is only incremented; it is a \<open>nat\<close> here.
\<close>

record 'g meta =
  uid :: nat
  map_table :: "'g Map list"
  once :: bool

definition meta_init :: "'g meta" where
  "meta_init = \<lparr>uid = 0, map_table = replicate BRIDGE_MAX_WRAPPERS Map_ctor, once = False\<rparr>"

text \<open>
  The three assignments \<^verbatim>\<open>map[i].function = f\<close>, \<^verbatim>\<open>map[i].functionData = g\<close> and
  \<^verbatim>\<open>map[i].data = d\<close>.  The array has the cells \<open>0 ..< BRIDGE_MAX_WRAPPERS\<close>; with any
  other index the assignment writes outside the array and nothing is defined from
  there on.
\<close>

definition set_function :: "nat \<Rightarrow> Function \<Rightarrow> 'g meta \<Rightarrow> error + 'g meta" where
  "set_function i f m =
     (if i < BRIDGE_MAX_WRAPPERS
      then Inr (m\<lparr>map_table := (map_table m)[i := (map_table m ! i)\<lparr>map_function := Some f\<rparr>]\<rparr>)
      else Inl (OutOfBounds i))"

definition set_functionData :: "nat \<Rightarrow> 'g option \<Rightarrow> 'g meta \<Rightarrow> error + 'g meta" where
  "set_functionData i g m =
     (if i < BRIDGE_MAX_WRAPPERS
      then Inr (m\<lparr>map_table := (map_table m)[i := (map_table m ! i)\<lparr>map_functionData := g\<rparr>]\<rparr>)
      else Inl (OutOfBounds i))"

definition set_data :: "nat \<Rightarrow> Data \<Rightarrow> 'g meta \<Rightarrow> error + 'g meta" where
  "set_data i d m =
     (if i < BRIDGE_MAX_WRAPPERS
      then Inr (m\<lparr>map_table := (map_table m)[i := (map_table m ! i)\<lparr>map_data := d\<rparr>]\<rparr>)
      else Inl (OutOfBounds i))"

text \<open>
  \<^verbatim>\<open>template<int id> void Wrapper() { return map[id].functionData(map[id].data); }\<close>
  The result names the callback that runs and the token it receives.
\<close>

fun invoke :: "Function \<Rightarrow> 'g meta \<Rightarrow> error + 'g \<times> Data" where
  "invoke (Wrapper i) m =
     (if i < BRIDGE_MAX_WRAPPERS then
        (case map_functionData (map_table m ! i) of
           None \<Rightarrow> Inl NullCall
         | Some g \<Rightarrow> Inr (g, map_data (map_table m ! i)))
      else Inl (OutOfBounds i))"

text \<open>
  \<^verbatim>\<open>template<int id> bool expansion() { map[id].function = Wrapper<id>; return expansion<id - 1>(); }\<close>
  \<^verbatim>\<open>template<> bool expansion<0>() { map[0].function = Wrapper<0>; return true; }\<close>
\<close>

fun expansion :: "nat \<Rightarrow> 'g meta \<Rightarrow> error + 'g meta" where
  "expansion 0 m = set_function 0 (Wrapper 0) m"
| "expansion (Suc k) m =
     (case set_function (Suc k) (Wrapper (Suc k)) m of
        Inl e \<Rightarrow> Inl e
      | Inr m1 \<Rightarrow> expansion k m1)"

text \<open>
  \<^verbatim>\<open>static bool once = expansion<BRIDGE_MAX_WRAPPERS>();\<close>
  \<^verbatim>\<open>map[uid].functionData = functionData; map[uid].data = data; return map[uid++].function;\<close>
\<close>

definition Wrap :: "'g option \<Rightarrow> Data \<Rightarrow> 'g meta \<Rightarrow> error + Function option \<times> 'g meta" where
  "Wrap g d m =
     (case (if once m then Inr m
            else (case expansion BRIDGE_MAX_WRAPPERS m of
                    Inl e \<Rightarrow> Inl e
                  | Inr m' \<Rightarrow> Inr (m'\<lparr>once := True\<rparr>))) of
        Inl e \<Rightarrow> Inl e
      | Inr m0 \<Rightarrow>
          (case set_functionData (uid m0) g m0 of
             Inl e \<Rightarrow> Inl e
           | Inr m1 \<Rightarrow>
               (case set_data (uid m1) d m1 of
                  Inl e \<Rightarrow> Inl e
                | Inr m2 \<Rightarrow>
                    if uid m2 < BRIDGE_MAX_WRAPPERS
                    then Inr (map_function (map_table m2 ! uid m2), m2\<lparr>uid := uid m2 + 1\<rparr>)
                    else Inl (OutOfBounds (uid m2)))))"

text \<open>A run of registrations, in the order of the list.\<close>

fun Wrap_all ::
  "('g \<times> Data) list \<Rightarrow> 'g meta \<Rightarrow> error + Function option list \<times> 'g meta" where
  "Wrap_all [] m = Inr ([], m)"
| "Wrap_all ((g, d) # ps) m =
     (case Wrap (Some g) d m of
        Inl e \<Rightarrow> Inl e
      | Inr (h, m1) \<Rightarrow>
          (case Wrap_all ps m1 of
             Inl e \<Rightarrow> Inl e
           | Inr (hs, m2) \<Rightarrow> Inr (h # hs, m2)))"

section \<open>DigitalInput.cpp: construction and destruction\<close>

text \<open>
  What the Arduino core supplies for a pin: the two macros of tools.h over it, and
  \<^verbatim>\<open>digitalPinToInterrupt\<close>, negative when the pin has no interrupt.
\<close>

record platform =
  BRIDGE_BASEREG :: "8 word \<Rightarrow> nat"
  BRIDGE_BITMASK :: "8 word \<Rightarrow> 8 word"
  digitalPinToInterrupt :: "8 word \<Rightarrow> int"

text \<open>
  Modelled from the spec: \<^verbatim>\<open>attachInterrupt\<close> belongs to the Arduino core and is not part
  of the sources.  Section 6 of the specification gives it as
  \<^verbatim>\<open>registerEdgeInterrupt(interruptId, entryPoint)\<close>: it binds the entry point to the
  interrupt.  The bindings are a map from interrupt numbers to entry points.
\<close>

definition attachInterrupt ::
  "int \<Rightarrow> Function option \<Rightarrow> (int \<Rightarrow> Function option) \<Rightarrow> (int \<Rightarrow> Function option)" where
  "attachInterrupt interruptId h v = v(interruptId := h)"

text \<open>
  Modelled from the spec: \<^verbatim>\<open>detachInterrupt\<close> belongs to the Arduino core and is not part
  of the sources.  Section 6 of the specification gives it as
  \<^verbatim>\<open>unregisterInterrupt(interruptId)\<close>: it removes the binding of the interrupt.
\<close>

definition detachInterrupt :: "int \<Rightarrow> (int \<Rightarrow> Function option) \<Rightarrow> (int \<Rightarrow> Function option)" where
  "detachInterrupt interruptId v = v(interruptId := None)"

text \<open>
  The only callback the class registers is its static \<^verbatim>\<open>OnChange(Data)\<close>.  The state
  outside the instances: the statics of meta.h and the bindings of the interrupts.
\<close>

datatype isr = OnChange_static

record world =
  wrappers :: "isr meta"
  vectors :: "int \<Rightarrow> Function option"

definition world_init :: world where
  "world_init = \<lparr>wrappers = meta_init, vectors = (\<lambda>_. None)\<rparr>"

text \<open>
  The private constructor.  \<open>raw\<close> is the storage of the object before construction:
  a field the constructor does not assign keeps what \<open>raw\<close> holds.  \<open>base\<close> is the byte
  at \<^verbatim>\<open>*port\<close> during construction, \<open>this\<close> the address of the object.
  \<^verbatim>\<open>pinMode(pin, INPUT_PULLUP)\<close> acts on the hardware only.  The result is the instance
  with its fields as the constructor assigns them, and the state outside the instance
  after \<^verbatim>\<open>attachInterrupt(interruptId, meta::Wrap(OnChange, (Data) this), CHANGE)\<close>, which
  is an error when the call of \<^verbatim>\<open>Wrap\<close> leaves defined behaviour.
\<close>

definition DigitalInput_ctor ::
  "platform \<Rightarrow> 8 word \<Rightarrow> Data \<Rightarrow> 8 word \<Rightarrow> 'f option \<Rightarrow> 'f option \<Rightarrow> Data
     \<Rightarrow> 'f DigitalInput \<Rightarrow> world \<Rightarrow> 'f DigitalInput \<times> (error + world)" where
  "DigitalInput_ctor P base this p f g d raw w =
     (let s0 = raw\<lparr>pin := p, function_ptr := f, functionData := g, data := d,
                   port := BRIDGE_BASEREG P p, bitmask := BRIDGE_BITMASK P p,
                   syncCount := 0\<rparr>;
          interruptId = digitalPinToInterrupt P p
      in if interruptId \<ge> 0 then
           (let s1 = s0\<lparr>interruptible := True\<rparr>;
                s2 = s1\<lparr>asyncCount := 1\<rparr>;
                s3 = s2\<lparr>asyncState := BRIDGE_READ base (bitmask s2)\<rparr>;
                s4 = s3\<lparr>syncState := \<not> asyncState s3\<rparr>
            in (s4,
                case Wrap (Some OnChange_static) this (wrappers w) of
                  Inl e \<Rightarrow> Inl e
                | Inr (h, m) \<Rightarrow>
                    Inr (w\<lparr>wrappers := m,
                           vectors := attachInterrupt interruptId h (vectors w)\<rparr>)))
         else
           (let s1 = s0\<lparr>interruptible := False\<rparr>;
                s2 = s1\<lparr>syncState := NOT_BRIDGE_READ base (bitmask s1)\<rparr>
            in (s2, Inr w)))"

text \<open>\<^verbatim>\<open>detachInterrupt(digitalPinToInterrupt(pin));\<close>\<close>

definition DigitalInput_dtor :: "platform \<Rightarrow> 'f DigitalInput \<Rightarrow> world \<Rightarrow> world" where
  "DigitalInput_dtor P s w =
     w\<lparr>vectors := detachInterrupt (digitalPinToInterrupt P (pin s)) (vectors w)\<rparr>"

text \<open>
  Modelled from the spec: the delivery of an interrupt is the hardware's and the Arduino
  core's.  Section 2 of the specification gives the control flow: the hardware event
  runs the entry point bound to the interrupt, if there is one.  The result names the
  routine the entry point forwards to and the token.
\<close>

definition deliver :: "int \<Rightarrow> world \<Rightarrow> error + (isr \<times> Data) option" where
  "deliver interruptId w =
     (case vectors w interruptId of
        None \<Rightarrow> Inr None
      | Some h \<Rightarrow>
          (case invoke h (wrappers w) of
             Inl e \<Rightarrow> Inl e
           | Inr k \<Rightarrow> Inr (Some k)))"

section \<open>A line and its instance over time\<close>

text \<open>
  \<open>Edge r\<close>: the line changes and \<^verbatim>\<open>*port\<close> now reads \<open>r\<close>; on an instance that captures
  by interrupt the service routine runs and reads \<open>r\<close>.  \<open>Poll\<close>: \<^verbatim>\<open>Step\<close> is called.
  The state is the byte at \<^verbatim>\<open>*port\<close> with the instance; \<open>run\<close> returns the calls of all
  polls in order.
\<close>

datatype event = Edge "8 word" | Poll

fun fire ::
  "event \<Rightarrow> 8 word \<times> 'f DigitalInput \<Rightarrow> error + (8 word \<times> 'f DigitalInput) \<times> 'f call list" where
  "fire (Edge r) (base, s) = Inr ((r, if interruptible s then OnChange r s else s), [])"
| "fire Poll (base, s) =
     (case Step base s of
        Inl e \<Rightarrow> Inl e
      | Inr (s1, out) \<Rightarrow> Inr ((base, s1), out))"

fun run ::
  "event list \<Rightarrow> 8 word \<times> 'f DigitalInput \<Rightarrow> error + (8 word \<times> 'f DigitalInput) \<times> 'f call list" where
  "run [] x = Inr (x, [])"
| "run (e # es) x =
     (case fire e x of
        Inl err \<Rightarrow> Inl err
      | Inr (x1, out1) \<Rightarrow>
          (case run es x1 of
             Inl err \<Rightarrow> Inl err
           | Inr (x2, out2) \<Rightarrow> Inr (x2, out1 @ out2)))"

section \<open>Step, one action at a time\<close>

text \<open>
  Interrupts are enabled while the loops of \<^verbatim>\<open>Step\<close> run, so the service routine can
  run between any two rounds.  A call of \<^verbatim>\<open>Step\<close> in progress is a frame holding its locals
  \<open>count\<close>, \<open>change\<close> and \<open>c\<close>.  \<open>Irq r\<close>: the service routine runs (on an instance that
  captures by interrupt) and reads \<open>r\<close>.  \<open>Begin base\<close>: \<^verbatim>\<open>Step\<close> is called and runs up to
  the test \<^verbatim>\<open>change > 0\<close>; the reads of its first part are one step, as
  \<^verbatim>\<open>noInterrupts()\<close> makes them.  \<open>Advance\<close>: one test of the loop condition, followed by
  one round of the loop or, when the loop has ended, by \<^verbatim>\<open>syncCount = count\<close> and the return.
  A \<open>Begin\<close> while a call is in progress and an \<open>Advance\<close> while none is do nothing.
\<close>

datatype frame = Frame "32 word" "32 word" int

datatype action = Irq "8 word" | Begin "8 word" | Advance

fun act ::
  "action \<Rightarrow> 'f DigitalInput \<times> frame option
     \<Rightarrow> error + ('f DigitalInput \<times> frame option) \<times> 'f call list" where
  "act (Irq r) (s, fr) = Inr ((if interruptible s then OnChange r s else s, fr), [])"
| "act (Begin base) (s, None) =
     (let (state, count, change) = reconcile base s
      in if change > 0 then Inr ((s, Some (Frame count change 0)), [])
         else Inr ((s, None), []))"
| "act (Begin base) (s, Some fr) = Inr ((s, Some fr), [])"
| "act Advance (s, None) = Inr ((s, None), [])"
| "act Advance (s, Some (Frame count change c)) =
     (if c < uint change then
        (let s1 = s\<lparr>syncState := \<not> syncState s\<rparr> in
         case (case function_ptr s of
                 Some f \<Rightarrow> call_function f s1
               | None \<Rightarrow> call_functionData s1) of
           Inl e \<Rightarrow> Inl e
         | Inr k \<Rightarrow>
             if c = INT_MAX then Inl SignedOverflow
             else Inr ((s1, Some (Frame count change (c + 1))), [k]))
      else Inr ((s\<lparr>syncCount := count\<rparr>, None), []))"

fun acts ::
  "action list \<Rightarrow> 'f DigitalInput \<times> frame option
     \<Rightarrow> error + ('f DigitalInput \<times> frame option) \<times> 'f call list" where
  "acts [] x = Inr (x, [])"
| "acts (a # as) x =
     (case act a x of
        Inl err \<Rightarrow> Inl err
      | Inr (x1, out1) \<Rightarrow>
          (case acts as x1 of
             Inl err \<Rightarrow> Inl err
           | Inr (x2, out2) \<Rightarrow> Inr (x2, out1 @ out2)))"

fun irqs :: "action list \<Rightarrow> nat" where
  "irqs [] = 0"
| "irqs (Irq r # as) = Suc (irqs as)"
| "irqs (Begin base # as) = irqs as"
| "irqs (Advance # as) = irqs as"

section \<open>Observations and sample inputs\<close>

text \<open>
  The handler a call of \<^verbatim>\<open>Step\<close> invokes, as a function of the state it reports:
  \<^verbatim>\<open>function\<close> when it is not null, else \<^verbatim>\<open>functionData\<close> with the token; none when
  both are null.
\<close>

definition handler :: "'f DigitalInput \<Rightarrow> (bool \<Rightarrow> 'f call) option" where
  "handler s =
     (case function_ptr s of
        Some f \<Rightarrow> Some (Call_function f)
      | None \<Rightarrow>
          (case functionData s of
             Some g \<Rightarrow> Some (\<lambda>b. Call_functionData g b (data s))
           | None \<Rightarrow> None))"

text \<open>The state a call carries, and the states reported by a run that returned.\<close>

fun call_state :: "'f call \<Rightarrow> bool" where
  "call_state (Call_function f b) = b"
| "call_state (Call_functionData g b d) = b"

fun reported :: "error + 's \<times> 'f call list \<Rightarrow> bool list option" where
  "reported (Inl e) = None"
| "reported (Inr (s, out)) = Some (map call_state out)"

text \<open>
  Sample inputs.  \<open>uno\<close>: pins 0 to 7 of an Arduino Uno, all on the port whose input
  register is at address 41, pin \<open>p\<close> on bit \<open>p\<close>; pins 2 and 3 have the interrupts 0
  and 1.  \<open>blank\<close> is zeroed storage.  \<open>low_poll\<close> (pin 4) and \<open>low_irq\<close> (pin 2) are
  instances with the state-only handler 7, built while the port reads 0.
\<close>

definition uno :: platform where
  "uno = \<lparr>BRIDGE_BASEREG = (\<lambda>p. 41),
          BRIDGE_BITMASK = (\<lambda>p. push_bit (unat p) 1),
          digitalPinToInterrupt = (\<lambda>p. if p = 2 then 0 else if p = 3 then 1 else - 1)\<rparr>"

definition blank :: "nat DigitalInput" where
  "blank = \<lparr>port = 0, bitmask = 0, function_ptr = None, functionData = None, data = 0,
            pin = 0, interruptible = False, asyncCount = 0, asyncState = False,
            syncCount = 0, syncState = False\<rparr>"

definition low_poll :: "nat DigitalInput" where
  "low_poll = fst (DigitalInput_ctor uno 0 100 4 (Some 7) None 0 blank world_init)"

definition low_irq :: "nat DigitalInput" where
  "low_irq = fst (DigitalInput_ctor uno 0 100 2 (Some 7) None 0 blank world_init)"

text \<open>
  The body of the loop that \<^verbatim>\<open>Step\<close> chooses for an instance; a result with calls put in
  front; the end of \<^verbatim>\<open>Step\<close> after its loop; a call of \<^verbatim>\<open>Step\<close> that has returned, seen as
  a state with no frame.
\<close>

definition body_of :: "'f DigitalInput \<Rightarrow> 'f DigitalInput \<Rightarrow> error + 'f call" where
  "body_of s = (case function_ptr s of Some f \<Rightarrow> call_function f | None \<Rightarrow> call_functionData)"

fun onto :: "'o list \<Rightarrow> error + 's \<times> 'o list \<Rightarrow> error + 's \<times> 'o list" where
  "onto out (Inl e) = Inl e"
| "onto out (Inr (s, out')) = Inr (s, out @ out')"

fun finish :: "32 word \<Rightarrow> error + 'f DigitalInput \<times> 'f call list
    \<Rightarrow> error + ('f DigitalInput \<times> frame option) \<times> 'f call list" where
  "finish count (Inl e) = Inl e"
| "finish count (Inr (s, out)) = Inr ((s\<lparr>syncCount := count\<rparr>, None), out)"

fun returned :: "error + 'f DigitalInput \<times> 'f call list
    \<Rightarrow> error + ('f DigitalInput \<times> frame option) \<times> 'f call list" where
  "returned (Inl e) = Inl e"
| "returned (Inr (s, out)) = Inr ((s, None), out)"

text \<open>
  What holds of an interrupt-driven instance and the frame of its call of \<^verbatim>\<open>Step\<close>, as
  long as \<open>asyncCount\<close> has not wrapped.
\<close>

fun good :: "'f DigitalInput \<times> frame option \<Rightarrow> bool" where
  "good (s, None) = (interruptible s \<and> syncCount s \<le> asyncCount s)"
| "good (s, Some (Frame count change c)) =
     (interruptible s \<and> syncCount s \<le> asyncCount s \<and> syncCount s \<le> count \<and> count \<le> asyncCount s)"

section \<open>The loop of Step\<close>

lemma body_function: "call_function f (s\<lparr>syncState := b\<rparr>) = Inr (Call_function f b)"
  by (simp add: call_function_def)

lemma body_functionData:
  "functionData s = Some g \<Longrightarrow>
     call_functionData (s\<lparr>syncState := b\<rparr>) = Inr (Call_functionData g b (data s))"
  by (simp add: call_functionData_def)

text \<open>
  With a body that returns, a counter inside \<open>0 .. change\<close> and \<open>change\<close> within the range
  of \<^verbatim>\<open>int\<close>, the loop runs \<open>change - c\<close> times; each round negates the state and reports it.
\<close>

lemma for_loop_runs:
  assumes body: "\<And>b. body (s\<lparr>syncState := b\<rparr>) = Inr (mk b)"
  shows "0 \<le> c \<Longrightarrow> c \<le> uint change \<Longrightarrow> uint change \<le> INT_MAX \<Longrightarrow> n = nat (uint change - c) \<Longrightarrow>
     for_loop body c change (s\<lparr>syncState := b0\<rparr>) out =
       Inr (s\<lparr>syncState := (Not ^^ n) b0\<rparr>,
            out @ map (\<lambda>i. mk ((Not ^^ Suc i) b0)) [0..<n])"
proof (induction n arbitrary: c b0 out)
  case 0
  then have "\<not> c < uint change" by simp
  then show ?case by (simp add: for_loop.simps)
next
  case (Suc n)
  then have lt: "c < uint change" and ne: "c \<noteq> INT_MAX" by simp_all
  have n: "n = nat (uint change - (c + 1))" using Suc.prems by simp
  have step: "for_loop body c change (s\<lparr>syncState := b0\<rparr>) out =
      for_loop body (c + 1) change (s\<lparr>syncState := \<not> b0\<rparr>) (out @ [mk (\<not> b0)])"
    using lt ne by (subst for_loop.simps) (simp add: body)
  have ih: "for_loop body (c + 1) change (s\<lparr>syncState := \<not> b0\<rparr>) (out @ [mk (\<not> b0)]) =
      Inr (s\<lparr>syncState := (Not ^^ n) (\<not> b0)\<rparr>,
           (out @ [mk (\<not> b0)]) @ map (\<lambda>i. mk ((Not ^^ Suc i) (\<not> b0))) [0..<n])"
    using Suc.prems lt n by (intro Suc.IH) simp_all
  have m: "map (\<lambda>i. mk ((Not ^^ Suc i) b0)) [0..<Suc n] =
      mk (\<not> b0) # map (\<lambda>i. mk ((Not ^^ Suc i) (\<not> b0))) [0..<n]"
    unfolding upt_conv_Cons [OF zero_less_Suc] map_Suc_upt [symmetric]
    by (simp add: funpow_swap1)
  show ?case
    unfolding step ih m by (simp add: funpow_swap1)
qed

text \<open>With \<open>change\<close> beyond the range of \<^verbatim>\<open>int\<close> the counter reaches \<^verbatim>\<open>INT_MAX\<close> first.\<close>

lemma for_loop_overflow:
  assumes body: "\<And>b. body (s\<lparr>syncState := b\<rparr>) = Inr (mk b)"
  shows "0 \<le> c \<Longrightarrow> c \<le> INT_MAX \<Longrightarrow> INT_MAX < uint change \<Longrightarrow> n = nat (INT_MAX - c) \<Longrightarrow>
     for_loop body c change (s\<lparr>syncState := b0\<rparr>) out = Inl SignedOverflow"
proof (induction n arbitrary: c b0 out)
  case 0
  then have "c = INT_MAX" by simp
  then show ?case using 0 by (subst for_loop.simps) (simp add: body)
next
  case (Suc n)
  then have lt: "c < uint change" and ne: "c \<noteq> INT_MAX" by simp_all
  have step: "for_loop body c change (s\<lparr>syncState := b0\<rparr>) out =
      for_loop body (c + 1) change (s\<lparr>syncState := \<not> b0\<rparr>) (out @ [mk (\<not> b0)])"
    using lt ne by (subst for_loop.simps) (simp add: body)
  show ?case unfolding step using Suc.prems by (intro Suc.IH) simp_all
qed

lemma loops_run:
  assumes h: "handler s = Some mk" and le: "uint change \<le> INT_MAX"
  shows "(case function_ptr s of
            Some f \<Rightarrow> for_loop (call_function f) 0 change s []
          | None \<Rightarrow> for_loop call_functionData 0 change s []) =
         Inr (s\<lparr>syncState := (Not ^^ unat change) (syncState s)\<rparr>,
              map (\<lambda>i. mk ((Not ^^ Suc i) (syncState s))) [0..<unat change])"
proof (cases "function_ptr s")
  case (Some f)
  then have mk: "mk = Call_function f" using h by (simp add: handler_def)
  have "for_loop (call_function f) 0 change (s\<lparr>syncState := syncState s\<rparr>) [] =
      Inr (s\<lparr>syncState := (Not ^^ unat change) (syncState s)\<rparr>,
           [] @ map (\<lambda>i. Call_function f ((Not ^^ Suc i) (syncState s))) [0..<unat change])"
    using le by (intro for_loop_runs body_function) simp_all
  then show ?thesis using Some mk by simp
next
  case None
  then obtain g where g: "functionData s = Some g"
    and mk: "mk = (\<lambda>b. Call_functionData g b (data s))"
    using h by (auto simp: handler_def split: option.splits)
  have "for_loop call_functionData 0 change (s\<lparr>syncState := syncState s\<rparr>) [] =
      Inr (s\<lparr>syncState := (Not ^^ unat change) (syncState s)\<rparr>,
           [] @ map (\<lambda>i. Call_functionData g ((Not ^^ Suc i) (syncState s)) (data s))
                  [0..<unat change])"
    using le g by (intro for_loop_runs body_functionData) simp_all
  then show ?thesis using None mk by simp
qed

lemma loops_overflow:
  assumes h: "handler s = Some mk" and gt: "INT_MAX < uint change"
  shows "(case function_ptr s of
            Some f \<Rightarrow> for_loop (call_function f) 0 change s []
          | None \<Rightarrow> for_loop call_functionData 0 change s []) = Inl SignedOverflow"
proof (cases "function_ptr s")
  case (Some f)
  have "for_loop (call_function f) 0 change (s\<lparr>syncState := syncState s\<rparr>) [] = Inl SignedOverflow"
    using gt by (intro for_loop_overflow [where mk = "Call_function f"] body_function)
      (simp_all add: INT_MAX_def)
  then show ?thesis using Some by simp
next
  case None
  then obtain g where g: "functionData s = Some g"
    using h by (auto simp: handler_def split: option.splits)
  have "for_loop call_functionData 0 change (s\<lparr>syncState := syncState s\<rparr>) [] = Inl SignedOverflow"
    using gt by (intro for_loop_overflow [where mk = "\<lambda>b. Call_functionData g b (data s)"]
        body_functionData [OF g]) (simp_all add: INT_MAX_def)
  then show ?thesis using None by simp
qed

section \<open>Step in each capture mode\<close>

lemma Step_interrupt:
  assumes i: "interruptible s" and h: "handler s = Some mk"
    and le: "uint (asyncCount s - syncCount s) \<le> INT_MAX"
  shows "Step base s =
     Inr (s\<lparr>syncState := (Not ^^ unat (asyncCount s - syncCount s)) (syncState s),
            syncCount := asyncCount s\<rparr>,
          map (\<lambda>i. mk ((Not ^^ Suc i) (syncState s))) [0..<unat (asyncCount s - syncCount s)])"
proof (cases "asyncCount s - syncCount s = 0")
  case True
  then have "asyncCount s = syncCount s" by simp
  then show ?thesis using i True by (simp add: Step_def reconcile_def)
next
  case False
  then have pos: "0 < asyncCount s - syncCount s" by (simp add: word_gt_0)
  show ?thesis
    using i pos by (simp add: Step_def reconcile_def loops_run [OF h le])
qed

lemma Step_interrupt_overflow:
  assumes i: "interruptible s" and h: "handler s = Some mk"
    and gt: "INT_MAX < uint (asyncCount s - syncCount s)"
  shows "Step base s = Inl SignedOverflow"
proof -
  have pos: "0 < asyncCount s - syncCount s"
    using gt by (auto simp: word_gt_0 INT_MAX_def)
  show ?thesis using i pos by (simp add: Step_def reconcile_def loops_overflow [OF h gt])
qed

lemma Step_polling_same:
  assumes "\<not> interruptible s" and "BRIDGE_READ base (bitmask s) = syncState s"
  shows "Step base s = Inr (s, [])"
  using assms by (simp add: Step_def reconcile_def)

lemma Step_polling_differ:
  assumes p: "\<not> interruptible s" and d: "BRIDGE_READ base (bitmask s) \<noteq> syncState s"
    and h: "handler s = Some mk"
  shows "Step base s =
     Inr (s\<lparr>syncState := BRIDGE_READ base (bitmask s), syncCount := syncCount s + 1\<rparr>,
          [mk (BRIDGE_READ base (bitmask s))])"
proof -
  have le: "uint (1 :: 32 word) \<le> INT_MAX" by (simp add: INT_MAX_def)
  have b: "BRIDGE_READ base (bitmask s) = (\<not> syncState s)" using d by auto
  show ?thesis
    using p d by (simp add: Step_def reconcile_def loops_run [OF h le] b)
qed

lemma Step_polling_at_most_one:
  assumes p: "\<not> interruptible s" and h: "handler s = Some mk"
  shows "\<exists>s1 out. Step base s = Inr (s1, out) \<and> length out \<le> 1"
proof (cases "BRIDGE_READ base (bitmask s) = syncState s")
  case True
  then show ?thesis by (simp add: Step_polling_same [OF p])
next
  case False
  then show ?thesis by (simp add: Step_polling_differ [OF p _ h])
qed

lemma handler_state: "handler s = Some mk \<Longrightarrow> call_state (mk b) = b"
  by (auto simp: handler_def split: option.splits)

lemma handler_sync_update: "handler (s\<lparr>syncState := b, syncCount := n\<rparr>) = handler s"
  by (simp add: handler_def split: option.splits)

lemma OnChange_fields:
  "syncState (OnChange r s) = syncState s" "syncCount (OnChange r s) = syncCount s"
  "interruptible (OnChange r s) = interruptible s" "bitmask (OnChange r s) = bitmask s"
  "function_ptr (OnChange r s) = function_ptr s" "functionData (OnChange r s) = functionData s"
  "data (OnChange r s) = data s" "asyncCount (OnChange r s) = asyncCount s + 1"
  "asyncState (OnChange r s) = BRIDGE_READ r (bitmask s)"
  by (simp_all add: OnChange_def)

lemma handler_OnChange: "handler (OnChange r s) = handler s"
  by (simp add: handler_def OnChange_fields split: option.splits)

lemma fold_OnChange_syncState: "syncState (fold OnChange rs s) = syncState s"
  by (induction rs arbitrary: s) (simp_all add: OnChange_fields)

section \<open>The interrupt-side update\<close>

text \<open>
  C8.  Every run of the interrupt-side update stores the raw level it reads in
  \<open>asyncState\<close> and adds exactly one to the 32-bit \<open>asyncCount\<close>, whatever the level
  stored before; every other field of the instance keeps its value.
\<close>

theorem OnChange_effect:
  "OnChange base s =
     s\<lparr>asyncCount := asyncCount s + 1, asyncState := BRIDGE_READ base (bitmask s)\<rparr>
   \<and> asyncState (OnChange base s) = BRIDGE_READ base (bitmask s)
   \<and> asyncCount (OnChange base s) = asyncCount s + 1
   \<and> unat (asyncCount (OnChange base s)) = (unat (asyncCount s) + 1) mod 2 ^ 32
   \<and> syncState (OnChange base s) = syncState s
   \<and> syncCount (OnChange base s) = syncCount s
   \<and> function_ptr (OnChange base s) = function_ptr s
   \<and> functionData (OnChange base s) = functionData s
   \<and> data (OnChange base s) = data s"
  by (simp add: OnChange_def Let_def unat_word_ariths)

section \<open>Catching up in interrupt-driven mode\<close>

text \<open>
  In interrupt-driven mode with a handler and \<open>n\<close> pending transitions, \<open>n\<close> within the
  range of \<^verbatim>\<open>int\<close>, \<^verbatim>\<open>Step\<close> makes \<open>n\<close> calls, the \<open>i\<close>-th with the old \<open>syncState\<close> negated
  \<open>i\<close> times, and ends with \<open>syncState\<close> negated \<open>n\<close> times and \<open>syncCount\<close> at the
  snapshot; \<open>asyncState\<close> has no part in it.
\<close>

lemma Step_catches_up:
  assumes "interruptible s" and "handler s = Some mk"
    and "n = unat (asyncCount s - syncCount s)" and "int n \<le> INT_MAX"
  shows "Step base s =
           Inr (s\<lparr>syncState := (Not ^^ n) (syncState s), syncCount := asyncCount s\<rparr>,
                map (\<lambda>i. mk ((Not ^^ Suc i) (syncState s))) [0..<n])"
    and "Step base (s\<lparr>asyncState := a\<rparr>) =
           Inr (s\<lparr>asyncState := a, syncState := (Not ^^ n) (syncState s), syncCount := asyncCount s\<rparr>,
                map (\<lambda>i. mk ((Not ^^ Suc i) (syncState s))) [0..<n])"
proof -
  have le: "uint (asyncCount s - syncCount s) \<le> INT_MAX" using assms(3,4) by simp
  show "Step base s =
           Inr (s\<lparr>syncState := (Not ^^ n) (syncState s), syncCount := asyncCount s\<rparr>,
                map (\<lambda>i. mk ((Not ^^ Suc i) (syncState s))) [0..<n])"
    unfolding assms(3) by (rule Step_interrupt [OF assms(1,2) le])
  let ?s = "s\<lparr>asyncState := a\<rparr>"
  have i: "interruptible ?s" using assms(1) by simp
  have h: "handler ?s = Some mk" using assms(2) by (simp add: handler_def split: option.splits)
  have le': "uint (asyncCount ?s - syncCount ?s) \<le> INT_MAX" using le by simp
  show "Step base ?s =
           Inr (s\<lparr>asyncState := a, syncState := (Not ^^ n) (syncState s), syncCount := asyncCount s\<rparr>,
                map (\<lambda>i. mk ((Not ^^ Suc i) (syncState s))) [0..<n])"
    unfolding Step_interrupt [OF i h le'] assms(3) by simp
qed

text \<open>
  C1.  In interrupt-driven mode a call of Step with \<open>n > 0\<close> pending transitions is to
  invoke the handler \<open>n\<close> times.  The loop counts them in an \<^verbatim>\<open>int\<close> against the
  \<^verbatim>\<open>uint32_t\<close> number of pending transitions: with 40000 pending (\<open>asyncCount = 40001\<close>,
  \<open>syncCount = 1\<close>) the counter is incremented at \<^verbatim>\<open>INT_MAX\<close> before the loop has ended,
  and Step has no defined result.
\<close>

theorem Step_counter_overflow:
  "Step base (s\<lparr>interruptible := True, function_ptr := Some f, asyncCount := 40001, syncCount := 1\<rparr>)
     = Inl SignedOverflow
   \<and> unat ((40001 :: 32 word) - 1) = 40000"
proof -
  let ?s = "s\<lparr>interruptible := True, function_ptr := Some f, asyncCount := 40001, syncCount := 1\<rparr>"
  have "Step base ?s = Inl SignedOverflow"
    by (rule Step_interrupt_overflow [where mk = "Call_function f"])
       (simp_all add: handler_def INT_MAX_def)
  then show ?thesis by simp
qed

section \<open>Construction and the first Step\<close>

lemma NOT_BRIDGE_READ_eq: "NOT_BRIDGE_READ base m = (\<not> BRIDGE_READ base m)"
  by (simp add: NOT_BRIDGE_READ_def BRIDGE_READ_def)

lemma ctor_instance:
  "fst (DigitalInput_ctor P base this p f g d raw w) =
     (if 0 \<le> digitalPinToInterrupt P p then
        raw\<lparr>pin := p, function_ptr := f, functionData := g, data := d,
            port := BRIDGE_BASEREG P p, bitmask := BRIDGE_BITMASK P p, syncCount := 0,
            interruptible := True, asyncCount := 1,
            asyncState := BRIDGE_READ base (BRIDGE_BITMASK P p),
            syncState := \<not> BRIDGE_READ base (BRIDGE_BITMASK P p)\<rparr>
      else
        raw\<lparr>pin := p, function_ptr := f, functionData := g, data := d,
            port := BRIDGE_BASEREG P p, bitmask := BRIDGE_BITMASK P p, syncCount := 0,
            interruptible := False,
            syncState := \<not> BRIDGE_READ base (BRIDGE_BITMASK P p)\<rparr>)"
  by (simp add: DigitalInput_ctor_def Let_def NOT_BRIDGE_READ_eq)

lemma ctor_fields:
  "interruptible (fst (DigitalInput_ctor P base this p f g d raw w)) = (0 \<le> digitalPinToInterrupt P p)"
  "syncState (fst (DigitalInput_ctor P base this p f g d raw w)) = (\<not> BRIDGE_READ base (BRIDGE_BITMASK P p))"
  "syncCount (fst (DigitalInput_ctor P base this p f g d raw w)) = 0"
  "bitmask (fst (DigitalInput_ctor P base this p f g d raw w)) = BRIDGE_BITMASK P p"
  "function_ptr (fst (DigitalInput_ctor P base this p f g d raw w)) = f"
  "functionData (fst (DigitalInput_ctor P base this p f g d raw w)) = g"
  "data (fst (DigitalInput_ctor P base this p f g d raw w)) = d"
  "pin (fst (DigitalInput_ctor P base this p f g d raw w)) = p"
  by (simp_all add: ctor_instance)

lemma ctor_async:
  "0 \<le> digitalPinToInterrupt P p \<Longrightarrow>
     asyncCount (fst (DigitalInput_ctor P base this p f g d raw w)) = 1"
  "0 \<le> digitalPinToInterrupt P p \<Longrightarrow>
     asyncState (fst (DigitalInput_ctor P base this p f g d raw w)) = BRIDGE_READ base (BRIDGE_BITMASK P p)"
  by (simp_all add: ctor_instance)

lemma handler_ctor:
  "handler (fst (DigitalInput_ctor P base this p f g d raw w)) =
     (case f of
        Some f' \<Rightarrow> Some (Call_function f')
      | None \<Rightarrow> (case g of Some g' \<Rightarrow> Some (\<lambda>b. Call_functionData g' b d) | None \<Rightarrow> None))"
  by (simp add: handler_def ctor_fields split: option.splits)

lemma first_Step_interrupt:
  assumes irq: "0 \<le> digitalPinToInterrupt P p"
    and h: "handler (fst (DigitalInput_ctor P base this p f g d raw w)) = Some mk"
  shows "Step later (fst (DigitalInput_ctor P base this p f g d raw w)) =
     Inr ((fst (DigitalInput_ctor P base this p f g d raw w))
            \<lparr>syncState := BRIDGE_READ base (BRIDGE_BITMASK P p), syncCount := 1\<rparr>,
          [mk (BRIDGE_READ base (BRIDGE_BITMASK P p))])"
proof -
  let ?s = "fst (DigitalInput_ctor P base this p f g d raw w)"
  have i: "interruptible ?s" using irq by (simp add: ctor_fields)
  have diff: "asyncCount ?s - syncCount ?s = 1" using irq by (simp add: ctor_fields ctor_async)
  have le: "uint (asyncCount ?s - syncCount ?s) \<le> INT_MAX" unfolding diff by (simp add: INT_MAX_def)
  show ?thesis
    unfolding Step_interrupt [OF i h le] diff using irq
    by (simp add: ctor_fields ctor_async)
qed

lemma first_Step:
  assumes h: "handler (fst (DigitalInput_ctor P base this p f g d raw w)) = Some mk"
  shows "Step base (fst (DigitalInput_ctor P base this p f g d raw w)) =
     Inr ((fst (DigitalInput_ctor P base this p f g d raw w))
            \<lparr>syncState := BRIDGE_READ base (BRIDGE_BITMASK P p), syncCount := 1\<rparr>,
          [mk (BRIDGE_READ base (BRIDGE_BITMASK P p))])"
proof (cases "0 \<le> digitalPinToInterrupt P p")
  case True
  then show ?thesis by (rule first_Step_interrupt [OF _ h])
next
  case False
  let ?s = "fst (DigitalInput_ctor P base this p f g d raw w)"
  have p: "\<not> interruptible ?s" using False by (simp add: ctor_fields)
  have d: "BRIDGE_READ base (bitmask ?s) \<noteq> syncState ?s" by (simp add: ctor_fields)
  show ?thesis
    unfolding Step_polling_differ [OF p d h] by (simp add: ctor_fields)
qed

lemma low_poll_facts:
  "\<not> interruptible low_poll" "handler low_poll = Some (Call_function 7)"
  "bitmask low_poll = 16" "syncState low_poll" "syncCount low_poll = 0"
  by (simp_all add: low_poll_def ctor_fields handler_ctor uno_def BRIDGE_READ_def)

lemma low_irq_facts:
  "interruptible low_irq" "handler low_irq = Some (Call_function 7)"
  "bitmask low_irq = 4" "syncState low_irq" "syncCount low_irq = 0"
  "asyncCount low_irq = 1" "\<not> asyncState low_irq"
  by (simp_all add: low_irq_def ctor_fields ctor_async handler_ctor uno_def BRIDGE_READ_def)

text \<open>
  C7.  An instance constructed in interrupt-driven mode has \<open>asyncCount = 1\<close>, the raw
  level in \<open>asyncState\<close> and its negation in \<open>syncState\<close>; the first Step, with no edge in
  between, makes exactly one call, and the state it reports is the raw level the line
  had at construction.
\<close>

theorem interrupt_ctor_then_Step:
  assumes "0 \<le> digitalPinToInterrupt P p"
    and "handler (fst (DigitalInput_ctor P base this p f g d raw w)) = Some mk"
  shows "interruptible (fst (DigitalInput_ctor P base this p f g d raw w))
       \<and> asyncCount (fst (DigitalInput_ctor P base this p f g d raw w)) = 1
       \<and> asyncState (fst (DigitalInput_ctor P base this p f g d raw w)) =
           BRIDGE_READ base (BRIDGE_BITMASK P p)
       \<and> syncState (fst (DigitalInput_ctor P base this p f g d raw w)) =
           (\<not> asyncState (fst (DigitalInput_ctor P base this p f g d raw w)))
       \<and> syncCount (fst (DigitalInput_ctor P base this p f g d raw w)) = 0
       \<and> Step later (fst (DigitalInput_ctor P base this p f g d raw w)) =
           Inr ((fst (DigitalInput_ctor P base this p f g d raw w))
                  \<lparr>syncState := BRIDGE_READ base (BRIDGE_BITMASK P p), syncCount := 1\<rparr>,
                [mk (BRIDGE_READ base (BRIDGE_BITMASK P p))])
       \<and> call_state (mk (BRIDGE_READ base (BRIDGE_BITMASK P p))) =
           BRIDGE_READ base (BRIDGE_BITMASK P p)"
  using assms(1)
  by (simp add: first_Step_interrupt [OF assms] ctor_fields ctor_async handler_state [OF assms(2)])

theorem interrupt_ctor_then_Step_witness:
  "0 \<le> digitalPinToInterrupt uno 3
   \<and> handler (fst (DigitalInput_ctor uno 8 100 3 None (Some 9) 5 blank world_init)) =
       Some (\<lambda>b. Call_functionData 9 b 5)
   \<and> asyncCount (fst (DigitalInput_ctor uno 8 100 3 None (Some 9) 5 blank world_init)) = 1
   \<and> BRIDGE_READ 8 (BRIDGE_BITMASK uno 3) = True
   \<and> Step 0 (fst (DigitalInput_ctor uno 8 100 3 None (Some 9) 5 blank world_init)) =
       Inr ((fst (DigitalInput_ctor uno 8 100 3 None (Some 9) 5 blank world_init))
              \<lparr>syncState := True, syncCount := 1\<rparr>, [Call_functionData 9 True 5])"
proof -
  have i: "0 \<le> digitalPinToInterrupt uno 3" by (simp add: uno_def)
  have h: "handler (fst (DigitalInput_ctor uno 8 100 3 None (Some 9) 5 blank world_init)) =
      Some (\<lambda>b. Call_functionData 9 b 5)"
    by (simp add: handler_ctor)
  have l: "BRIDGE_READ 8 (BRIDGE_BITMASK uno 3) = True" by (simp add: BRIDGE_READ_def uno_def)
  show ?thesis
    using interrupt_ctor_then_Step [OF i h, of 0] i h l by simp
qed

text \<open>
  C2, as the code has it.  In either capture mode, when the instance has a handler, the
  first Step after construction, with the line still at its level of construction,
  makes exactly one call, and the state that call carries is the raw level the line had
  at construction (not its negation: construction stores the negation in \<open>syncState\<close>
  and the first Step negates it back before it reports).
\<close>

theorem first_Step_reports_raw_level:
  assumes "handler (fst (DigitalInput_ctor P base this p f g d raw w)) = Some mk"
  shows "Step base (fst (DigitalInput_ctor P base this p f g d raw w)) =
           Inr ((fst (DigitalInput_ctor P base this p f g d raw w))
                  \<lparr>syncState := BRIDGE_READ base (BRIDGE_BITMASK P p), syncCount := 1\<rparr>,
                [mk (BRIDGE_READ base (BRIDGE_BITMASK P p))])
         \<and> call_state (mk (BRIDGE_READ base (BRIDGE_BITMASK P p))) =
             BRIDGE_READ base (BRIDGE_BITMASK P p)
         \<and> reported (Step base (fst (DigitalInput_ctor P base this p f g d raw w))) =
             Some [BRIDGE_READ base (BRIDGE_BITMASK P p)]"
  by (simp add: first_Step [OF assms] handler_state [OF assms])

theorem first_Step_reports_raw_level_witness:
  "handler (fst (DigitalInput_ctor uno 4 100 2 (Some 7) None 0 blank world_init)) =
     Some (Call_function 7)
   \<and> BRIDGE_READ 4 (BRIDGE_BITMASK uno 2) = True
   \<and> reported (Step 4 (fst (DigitalInput_ctor uno 4 100 2 (Some 7) None 0 blank world_init))) =
       Some [True]
   \<and> handler (fst (DigitalInput_ctor uno 0 100 4 None (Some 9) 5 blank world_init)) =
       Some (\<lambda>b. Call_functionData 9 b 5)
   \<and> Step 0 (fst (DigitalInput_ctor uno 0 100 4 None (Some 9) 5 blank world_init)) =
       Inr ((fst (DigitalInput_ctor uno 0 100 4 None (Some 9) 5 blank world_init))
              \<lparr>syncState := False, syncCount := 1\<rparr>, [Call_functionData 9 False 5])"
proof -
  have h1: "handler (fst (DigitalInput_ctor uno 4 100 2 (Some 7) None 0 blank world_init)) =
      Some (Call_function 7)"
    by (simp add: handler_ctor)
  have h2: "handler (fst (DigitalInput_ctor uno 0 100 4 None (Some 9) 5 blank world_init)) =
      Some (\<lambda>b. Call_functionData 9 b 5)"
    by (simp add: handler_ctor)
  have l1: "BRIDGE_READ 4 (BRIDGE_BITMASK uno 2) = True" by (simp add: BRIDGE_READ_def uno_def)
  have l2: "BRIDGE_READ 0 (BRIDGE_BITMASK uno 4) = False" by (simp add: BRIDGE_READ_def uno_def)
  show ?thesis
    using first_Step_reports_raw_level [OF h1] first_Step_reports_raw_level [OF h2] h1 h2 l1 l2
    by simp
qed

text \<open>
  Against C2 as stated: pin 2 (interrupt-driven) constructed on a low line reports low
  on the first Step, where the negation of the raw level is high; pin 4 (polling-only)
  constructed on a high line reports high, where the negation is low.
\<close>

theorem first_Step_negation_counterexample:
  "reported (Step 0 (fst (DigitalInput_ctor uno 0 100 2 (Some 7) None 0 blank world_init)))
     = Some [False]
   \<and> (\<not> BRIDGE_READ 0 (BRIDGE_BITMASK uno 2)) = True
   \<and> reported (Step 0 (fst (DigitalInput_ctor uno 0 100 2 (Some 7) None 0 blank world_init)))
     \<noteq> Some [\<not> BRIDGE_READ 0 (BRIDGE_BITMASK uno 2)]
   \<and> reported (Step 16 (fst (DigitalInput_ctor uno 16 100 4 (Some 7) None 0 blank world_init)))
     = Some [True]
   \<and> (\<not> BRIDGE_READ 16 (BRIDGE_BITMASK uno 4)) = False
   \<and> reported (Step 16 (fst (DigitalInput_ctor uno 16 100 4 (Some 7) None 0 blank world_init)))
     \<noteq> Some [\<not> BRIDGE_READ 16 (BRIDGE_BITMASK uno 4)]"
proof -
  have h1: "handler (fst (DigitalInput_ctor uno 0 100 2 (Some 7) None 0 blank world_init)) =
      Some (Call_function 7)"
    by (simp add: handler_ctor)
  have h2: "handler (fst (DigitalInput_ctor uno 16 100 4 (Some 7) None 0 blank world_init)) =
      Some (Call_function 7)"
    by (simp add: handler_ctor)
  have l1: "BRIDGE_READ 0 (BRIDGE_BITMASK uno 2) = False" by (simp add: BRIDGE_READ_def uno_def)
  have l2: "BRIDGE_READ 16 (BRIDGE_BITMASK uno 4) = True" by (simp add: BRIDGE_READ_def uno_def)
  show ?thesis
    by (simp add: first_Step [OF h1] first_Step [OF h2] l1 l2)
qed

text \<open>
  C10.  In either capture mode GetState, called after construction and before the first
  Step, returns the negation of the raw level the line had at construction, however many
  interrupt-side updates have run since; after the first Step (with a handler, the line
  still at that level) it returns the level itself.
\<close>

theorem GetState_around_first_Step:
  assumes "handler (fst (DigitalInput_ctor P base this p f g d raw w)) = Some mk"
  shows "GetState (fst (DigitalInput_ctor P base this p f g d raw w)) =
           (\<not> BRIDGE_READ base (BRIDGE_BITMASK P p))
       \<and> GetState (fold OnChange rs (fst (DigitalInput_ctor P base this p f g d raw w))) =
           (\<not> BRIDGE_READ base (BRIDGE_BITMASK P p))
       \<and> (\<exists>s1 out. Step base (fst (DigitalInput_ctor P base this p f g d raw w)) = Inr (s1, out)
             \<and> GetState s1 = BRIDGE_READ base (BRIDGE_BITMASK P p))"
  by (simp add: GetState_def fold_OnChange_syncState ctor_fields first_Step [OF assms])

theorem GetState_around_first_Step_witness:
  "handler (fst (DigitalInput_ctor uno 4 100 2 (Some 7) None 0 blank world_init)) =
     Some (Call_function 7)
   \<and> BRIDGE_READ 4 (BRIDGE_BITMASK uno 2) = True
   \<and> GetState (fst (DigitalInput_ctor uno 4 100 2 (Some 7) None 0 blank world_init)) = False
   \<and> GetState (fold OnChange [0, 4]
        (fst (DigitalInput_ctor uno 4 100 2 (Some 7) None 0 blank world_init))) = False
   \<and> (\<exists>s1 out. Step 4 (fst (DigitalInput_ctor uno 4 100 2 (Some 7) None 0 blank world_init)) =
         Inr (s1, out) \<and> GetState s1 = True)"
proof -
  have h: "handler (fst (DigitalInput_ctor uno 4 100 2 (Some 7) None 0 blank world_init)) =
      Some (Call_function 7)"
    by (simp add: handler_ctor)
  have l: "BRIDGE_READ 4 (BRIDGE_BITMASK uno 2) = True" by (simp add: BRIDGE_READ_def uno_def)
  show ?thesis
    using GetState_around_first_Step [OF h, of "[0, 4]"] h l by simp
qed

section \<open>Bursts between two polls\<close>

lemma burst_polling:
  assumes p: "\<not> interruptible s" and low: "\<not> syncState s" "\<not> BRIDGE_READ lo (bitmask s)"
  shows "run [Edge hi, Edge lo, Poll] (lo, s) = Inr ((lo, s), [])"
proof -
  have "Step lo s = Inr (s, [])" using low by (intro Step_polling_same [OF p]) simp
  then show ?thesis using p by simp
qed

lemma burst_polling_odd:
  assumes p: "\<not> interruptible s" and h: "handler s = Some mk"
    and low: "\<not> syncState s" and hi: "BRIDGE_READ hi (bitmask s)"
  shows "run [Edge hi, Edge lo, Edge hi, Poll] (lo, s) =
     Inr ((hi, s\<lparr>syncState := True, syncCount := syncCount s + 1\<rparr>), [mk True])"
proof -
  have d: "BRIDGE_READ hi (bitmask s) \<noteq> syncState s" using low hi by simp
  show ?thesis using p hi by (simp add: Step_polling_differ [OF p d h])
qed

lemma burst_interrupt:
  assumes i: "interruptible t" and h: "handler t = Some mk"
    and sync: "syncCount t = asyncCount t" and low: "\<not> syncState t"
  shows "run [Edge hi, Edge lo, Poll] (lo, t) =
     Inr ((lo, t\<lparr>asyncState := BRIDGE_READ lo (bitmask t), asyncCount := asyncCount t + 2,
                 syncState := False, syncCount := asyncCount t + 2\<rparr>),
          [mk True, mk False])"
proof -
  let ?t2 = "OnChange lo (OnChange hi t)"
  have i2: "interruptible ?t2" using i by (simp add: OnChange_fields)
  have h2: "handler ?t2 = Some mk" using h by (simp add: handler_OnChange)
  have diff: "asyncCount ?t2 - syncCount ?t2 = 2" using sync by (simp add: OnChange_fields)
  have le: "uint (asyncCount ?t2 - syncCount ?t2) \<le> INT_MAX"
    unfolding diff by (simp add: INT_MAX_def)
  have u2: "unat (2 :: 32 word) = Suc (Suc 0)" by simp
  have "Step lo ?t2 =
     Inr (t\<lparr>asyncState := BRIDGE_READ lo (bitmask t), asyncCount := asyncCount t + 2,
                 syncState := False, syncCount := asyncCount t + 2\<rparr>,
          [mk True, mk False])"
    unfolding Step_interrupt [OF i2 h2 le] diff u2 using low
    by (simp add: OnChange_def)
  then show ?thesis using i by (simp add: OnChange_fields)
qed

text \<open>
  C6, as the code has it.  In polling-only mode every Step makes at most one call: when
  the raw level read equals \<open>syncState\<close> it makes none and changes no field; otherwise
  it makes exactly one, \<open>syncState\<close> becomes the raw level and \<open>syncCount\<close> grows by one.
  So on a polling-only line that is low and reported low, two toggles between two polls
  give no call at the second poll (the level read is the one already reported), and
  three toggles give one call, high; the same two toggles on an interrupt-driven line
  that is low and synchronised give two calls, high then low.
\<close>

theorem polling_coalesces:
  assumes "\<not> interruptible s" and "handler s = Some mk"
    and "interruptible t" and "handler t = Some mk'"
    and "syncCount t = asyncCount t" and "\<not> syncState t"
  shows "(\<exists>s1 out. Step base s = Inr (s1, out) \<and> length out \<le> 1)
       \<and> (BRIDGE_READ base (bitmask s) = syncState s \<longrightarrow> Step base s = Inr (s, []))
       \<and> (BRIDGE_READ base (bitmask s) \<noteq> syncState s \<longrightarrow>
            Step base s =
              Inr (s\<lparr>syncState := BRIDGE_READ base (bitmask s), syncCount := syncCount s + 1\<rparr>,
                   [mk (BRIDGE_READ base (bitmask s))])
            \<and> call_state (mk (BRIDGE_READ base (bitmask s))) = BRIDGE_READ base (bitmask s))
       \<and> (\<not> syncState s \<and> \<not> BRIDGE_READ lo (bitmask s) \<longrightarrow>
            run [Edge hi, Edge lo, Poll] (lo, s) = Inr ((lo, s), []))
       \<and> (\<not> syncState s \<and> BRIDGE_READ hi (bitmask s) \<longrightarrow>
            run [Edge hi, Edge lo, Edge hi, Poll] (lo, s) =
              Inr ((hi, s\<lparr>syncState := True, syncCount := syncCount s + 1\<rparr>), [mk True]))
       \<and> run [Edge hi, Edge lo, Poll] (lo, t) =
            Inr ((lo, t\<lparr>asyncState := BRIDGE_READ lo (bitmask t), asyncCount := asyncCount t + 2,
                        syncState := False, syncCount := asyncCount t + 2\<rparr>),
                 [mk' True, mk' False])
       \<and> call_state (mk True) = True
       \<and> call_state (mk' True) = True \<and> call_state (mk' False) = False"
  using Step_polling_at_most_one [OF assms(1,2)] Step_polling_same [OF assms(1)]
    Step_polling_differ [OF assms(1) _ assms(2)] burst_polling [OF assms(1)]
    burst_polling_odd [OF assms(1,2)]
    burst_interrupt [OF assms(3,4,5,6)] handler_state [OF assms(2)] handler_state [OF assms(4)]
  by simp

theorem polling_coalesces_witness:
  "\<not> interruptible (low_poll\<lparr>syncState := False, syncCount := 1\<rparr>)
   \<and> handler (low_poll\<lparr>syncState := False, syncCount := 1\<rparr>) = Some (Call_function 7)
   \<and> interruptible (low_irq\<lparr>syncState := False, syncCount := 1\<rparr>)
   \<and> handler (low_irq\<lparr>syncState := False, syncCount := 1\<rparr>) = Some (Call_function 7)
   \<and> syncCount (low_irq\<lparr>syncState := False, syncCount := 1\<rparr>) =
       asyncCount (low_irq\<lparr>syncState := False, syncCount := 1\<rparr>)
   \<and> \<not> syncState (low_irq\<lparr>syncState := False, syncCount := 1\<rparr>)
   \<and> Step 16 (low_poll\<lparr>syncState := False, syncCount := 1\<rparr>) =
       Inr (low_poll\<lparr>syncState := True, syncCount := 2\<rparr>, [Call_function 7 True])
   \<and> Step 0 (low_poll\<lparr>syncState := False, syncCount := 1\<rparr>) =
       Inr (low_poll\<lparr>syncState := False, syncCount := 1\<rparr>, [])
   \<and> run [Edge 16, Edge 0, Poll] (0, low_poll\<lparr>syncState := False, syncCount := 1\<rparr>) =
       Inr ((0, low_poll\<lparr>syncState := False, syncCount := 1\<rparr>), [])
   \<and> run [Edge 16, Edge 0, Edge 16, Poll] (0, low_poll\<lparr>syncState := False, syncCount := 1\<rparr>) =
       Inr ((16, low_poll\<lparr>syncState := True, syncCount := 2\<rparr>), [Call_function 7 True])
   \<and> reported (run [Edge 4, Edge 0, Poll] (0, low_irq\<lparr>syncState := False, syncCount := 1\<rparr>)) =
       Some [True, False]"
proof -
  let ?s = "low_poll\<lparr>syncState := False, syncCount := 1\<rparr>"
  let ?t = "low_irq\<lparr>syncState := False, syncCount := 1\<rparr>"
  have a1: "\<not> interruptible ?s" by (simp add: low_poll_facts)
  have a2: "handler ?s = Some (Call_function 7)" by (simp add: handler_sync_update low_poll_facts)
  have a3: "interruptible ?t" by (simp add: low_irq_facts)
  have a4: "handler ?t = Some (Call_function 7)" by (simp add: handler_sync_update low_irq_facts)
  have a5: "syncCount ?t = asyncCount ?t" by (simp add: low_irq_facts)
  have a6: "\<not> syncState ?t" by simp
  have m: "bitmask ?s = 16" by (simp add: low_poll_facts)
  show ?thesis
    using polling_coalesces [OF a1 a2 a3 a4 a5 a6, of 16 0 16]
      polling_coalesces [OF a1 a2 a3 a4 a5 a6, of 0 0 4] a1 a2 a3 a4 a5
    by (simp add: m BRIDGE_READ_def)
qed

text \<open>
  Against C6 as stated: pin 4, polling-only, is constructed on a low line and polled
  once (one call, low).  The line then goes high and low again before the second poll:
  that poll makes no call, so the burst yields none, not one, and no call of the
  whole run reports high.
\<close>

theorem polling_burst_counterexample:
  "\<not> interruptible low_poll
   \<and> \<not> BRIDGE_READ 0 (bitmask low_poll) \<and> BRIDGE_READ 16 (bitmask low_poll)
   \<and> run [Poll] (0, low_poll) =
       Inr ((0, low_poll\<lparr>syncState := False, syncCount := 1\<rparr>), [Call_function 7 False])
   \<and> run [Edge 16, Edge 0, Poll] (0, low_poll\<lparr>syncState := False, syncCount := 1\<rparr>) =
       Inr ((0, low_poll\<lparr>syncState := False, syncCount := 1\<rparr>), [])
   \<and> reported (run [Edge 16, Edge 0, Poll] (0, low_poll\<lparr>syncState := False, syncCount := 1\<rparr>)) \<noteq>
       Some [True]
   \<and> reported (run [Poll, Edge 16, Edge 0, Poll] (0, low_poll)) = Some [False]"
proof -
  let ?s = "low_poll\<lparr>syncState := False, syncCount := 1\<rparr>"
  have p: "\<not> interruptible low_poll" by (simp add: low_poll_facts)
  have d: "BRIDGE_READ 0 (bitmask low_poll) \<noteq> syncState low_poll"
    by (simp add: low_poll_facts BRIDGE_READ_def)
  have s1: "Step 0 low_poll = Inr (?s, [Call_function 7 False])"
    by (simp add: Step_polling_differ [OF p d low_poll_facts(2)] low_poll_facts BRIDGE_READ_def)
  have p': "\<not> interruptible ?s" using p by simp
  have s2: "Step 0 ?s = Inr (?s, [])"
    by (rule Step_polling_same [OF p']) (simp add: low_poll_facts BRIDGE_READ_def)
  show ?thesis
    using p by (simp add: s1 s2 low_poll_facts BRIDGE_READ_def)
qed

section \<open>The table of wrappers\<close>

lemma set_function_past_the_table:
  "BRIDGE_MAX_WRAPPERS \<le> i \<Longrightarrow> set_function i f m = Inl (OutOfBounds i)"
  by (simp add: set_function_def)

lemma expansion_past_the_table:
  "BRIDGE_MAX_WRAPPERS \<le> k \<Longrightarrow> expansion k m = Inl (OutOfBounds k)"
proof (cases k)
  case 0
  assume "BRIDGE_MAX_WRAPPERS \<le> k"
  with 0 show ?thesis by (simp add: BRIDGE_MAX_WRAPPERS_def)
next
  case (Suc j)
  assume "BRIDGE_MAX_WRAPPERS \<le> k"
  with Suc show ?thesis by (simp add: set_function_past_the_table)
qed

lemma Wrap_first: "\<not> once m \<Longrightarrow> Wrap g d m = Inl (OutOfBounds BRIDGE_MAX_WRAPPERS)"
  by (simp add: Wrap_def expansion_past_the_table)

text \<open>
  What \<^verbatim>\<open>Wrap\<close> does on statics it never reaches: with \<^verbatim>\<open>once\<close> set, a cell free and that
  cell holding its entry point, it stores the callback and the token in cell \<open>uid\<close>,
  returns the entry point of that cell and moves \<open>uid\<close> on by one, and the entry point
  then runs that callback with that token.
\<close>

lemma Wrap_on_filled_table:
  assumes "once m" and "uid m < BRIDGE_MAX_WRAPPERS"
    and "length (map_table m) = BRIDGE_MAX_WRAPPERS"
    and "map_function (map_table m ! uid m) = Some (Wrapper (uid m))"
  shows "Wrap (Some g) d m =
           Inr (Some (Wrapper (uid m)),
                m\<lparr>map_table := (map_table m)
                      [uid m := (map_table m ! uid m)\<lparr>map_functionData := Some g, map_data := d\<rparr>],
                  uid := uid m + 1\<rparr>)"
    and "invoke (Wrapper (uid m))
           (m\<lparr>map_table := (map_table m)
                 [uid m := (map_table m ! uid m)\<lparr>map_functionData := Some g, map_data := d\<rparr>],
              uid := uid m + 1\<rparr>) = Inr (g, d)"
  using assms by (simp_all add: Wrap_def set_functionData_def set_data_def)

text \<open>
  C3.  Every registration is to store its callback and token in the next unused cell,
  from cell 0 on, and return an entry point that runs that callback with that token.
  On the initial statics the first registration runs \<^verbatim>\<open>expansion<BRIDGE_MAX_WRAPPERS>()\<close>
  first, whose first assignment is outside the array: no run of one or more
  registrations has a defined result, so nothing is stored and no entry point returned.
\<close>

theorem Wrap_all_never_registers:
  "\<not> once (meta_init :: 'g meta)
   \<and> uid (meta_init :: 'g meta) = 0
   \<and> Wrap_all ((g, d) # ps) (meta_init :: 'g meta) = Inl (OutOfBounds BRIDGE_MAX_WRAPPERS)"
proof -
  have o: "\<not> once (meta_init :: 'g meta)" by (simp add: meta_init_def)
  show ?thesis using o by (simp add: Wrap_first meta_init_def)
qed

text \<open>
  C4.  Every index used on the table is to lie in \<open>0 ..< BRIDGE_MAX_WRAPPERS\<close>.  The table
  has \<open>BRIDGE_MAX_WRAPPERS = 8\<close> cells.  \<^verbatim>\<open>expansion<BRIDGE_MAX_WRAPPERS>()\<close> begins with the
  assignment \<^verbatim>\<open>map[BRIDGE_MAX_WRAPPERS].function = Wrapper<BRIDGE_MAX_WRAPPERS>\<close>, one cell
  behind the array, and the first call of Wrap runs it: the first index that the eager
  pre-generation and the first registration use is 8.
\<close>

theorem expansion_reaches_past_the_table:
  "length (map_table (meta_init :: 'g meta)) = BRIDGE_MAX_WRAPPERS
   \<and> BRIDGE_MAX_WRAPPERS = 8
   \<and> set_function BRIDGE_MAX_WRAPPERS (Wrapper BRIDGE_MAX_WRAPPERS) (m :: 'g meta) =
       Inl (OutOfBounds BRIDGE_MAX_WRAPPERS)
   \<and> expansion BRIDGE_MAX_WRAPPERS (m :: 'g meta) = Inl (OutOfBounds BRIDGE_MAX_WRAPPERS)
   \<and> Wrap g d (meta_init :: 'g meta) = Inl (OutOfBounds BRIDGE_MAX_WRAPPERS)"
proof -
  have o: "\<not> once (meta_init :: 'g meta)" by (simp add: meta_init_def)
  have l: "length (map_table (meta_init :: 'g meta)) = BRIDGE_MAX_WRAPPERS"
    by (simp add: meta_init_def)
  show ?thesis
    using l by (simp add: Wrap_first [OF o] expansion_past_the_table set_function_past_the_table)
      (simp add: BRIDGE_MAX_WRAPPERS_def)
qed

section \<open>Destruction\<close>

lemma ctor_world:
  "snd (DigitalInput_ctor P base this p f g d raw w) =
     (if 0 \<le> digitalPinToInterrupt P p then
        (case Wrap (Some OnChange_static) this (wrappers w) of
           Inl e \<Rightarrow> Inl e
         | Inr (h, m) \<Rightarrow>
             Inr (w\<lparr>wrappers := m,
                    vectors := attachInterrupt (digitalPinToInterrupt P p) h (vectors w)\<rparr>))
      else Inr w)"
  by (simp add: DigitalInput_ctor_def Let_def)

lemma deliver_unbound: "vectors w i = None \<Longrightarrow> deliver i w = Inr None"
  by (simp add: deliver_def)

lemma ctor_keeps_negative_unbound:
  "\<forall>i<0. vectors w i = None \<Longrightarrow> snd (DigitalInput_ctor P base this p f g d raw w) = Inr w1 \<Longrightarrow>
     \<forall>i<0. vectors w1 i = None"
  by (auto simp: ctor_world attachInterrupt_def split: if_splits sum.splits)

lemma dtor_keeps_negative_unbound:
  "\<forall>i<0. vectors w i = None \<Longrightarrow> \<forall>i<0. vectors (DigitalInput_dtor P s w) i = None"
  by (simp add: DigitalInput_dtor_def detachInterrupt_def)

text \<open>
  C9.  After the destructor of an instance has run, the interrupt of the instance's pin
  has no binding, so that delivering it runs no routine; the other bindings and the
  table of wrappers are as before.  This holds whatever entry point \<^verbatim>\<open>attachInterrupt\<close>
  had bound to that interrupt, and so for an instance constructed in interrupt-driven
  mode, whose pin has an interrupt number that is not negative.  For a polling-only
  instance, whose pin has a negative interrupt number under which nothing is bound,
  neither construction nor destruction changes any binding.
\<close>

theorem dtor_unbinds:
  assumes "vectors w (digitalPinToInterrupt P q) = None" and "digitalPinToInterrupt P q < 0"
    and "0 \<le> digitalPinToInterrupt P p"
  shows "vectors (DigitalInput_dtor P s v) (digitalPinToInterrupt P (GetPin s)) = None
       \<and> deliver (digitalPinToInterrupt P (GetPin s)) (DigitalInput_dtor P s v) = Inr None
       \<and> (\<forall>j. j \<noteq> digitalPinToInterrupt P (GetPin s) \<longrightarrow>
            vectors (DigitalInput_dtor P s v) j = vectors v j)
       \<and> wrappers (DigitalInput_dtor P s v) = wrappers v
       \<and> vectors (v\<lparr>vectors := attachInterrupt (digitalPinToInterrupt P (GetPin s)) h (vectors v)\<rparr>)
           (digitalPinToInterrupt P (GetPin s)) = h
       \<and> deliver (digitalPinToInterrupt P (GetPin s))
           (DigitalInput_dtor P s
              (v\<lparr>vectors := attachInterrupt (digitalPinToInterrupt P (GetPin s)) h (vectors v)\<rparr>)) =
           Inr None
       \<and> GetPin (fst (DigitalInput_ctor P base this p f g d raw w')) = p
       \<and> interruptible (fst (DigitalInput_ctor P base this p f g d raw w'))
       \<and> deliver (digitalPinToInterrupt P p)
           (DigitalInput_dtor P (fst (DigitalInput_ctor P base this p f g d raw w')) v) = Inr None
       \<and> \<not> interruptible (fst (DigitalInput_ctor P base this q f g d raw w))
       \<and> snd (DigitalInput_ctor P base this q f g d raw w) = Inr w
       \<and> DigitalInput_dtor P (fst (DigitalInput_ctor P base this q f g d raw w)) w = w"
proof -
  have a: "vectors (DigitalInput_dtor P s' v') (digitalPinToInterrupt P (GetPin s')) = None"
    for s' :: "'a DigitalInput" and v'
    by (simp add: DigitalInput_dtor_def detachInterrupt_def GetPin_def)
  have b: "deliver (digitalPinToInterrupt P p)
           (DigitalInput_dtor P (fst (DigitalInput_ctor P base this p f g d raw w')) v) = Inr None"
    by (rule deliver_unbound) (simp add: DigitalInput_dtor_def detachInterrupt_def ctor_fields)
  have c: "DigitalInput_dtor P (fst (DigitalInput_ctor P base this q f g d raw w)) w = w"
    using fun_upd_idem [of "vectors w" "digitalPinToInterrupt P q" None] assms(1)
    by (simp add: DigitalInput_dtor_def detachInterrupt_def ctor_fields)
  show ?thesis
    using a [of s v] deliver_unbound [OF a [of s v]] deliver_unbound [OF a] b c assms(2,3)
    by (simp add: DigitalInput_dtor_def detachInterrupt_def attachInterrupt_def GetPin_def
        ctor_fields ctor_world)
qed

theorem dtor_unbinds_witness:
  "vectors world_init (digitalPinToInterrupt uno 4) = None
   \<and> digitalPinToInterrupt uno 4 < 0
   \<and> 0 \<le> digitalPinToInterrupt uno 2
   \<and> GetPin low_irq = 2
   \<and> interruptible low_irq
   \<and> vectors (world_init\<lparr>vectors := attachInterrupt 0 (Some (Wrapper 0)) (vectors world_init)\<rparr>) 0 =
       Some (Wrapper 0)
   \<and> vectors (DigitalInput_dtor uno low_irq
        (world_init\<lparr>vectors := attachInterrupt 0 (Some (Wrapper 0)) (vectors world_init)\<rparr>)) 0 = None
   \<and> deliver 0 (DigitalInput_dtor uno low_irq
        (world_init\<lparr>vectors := attachInterrupt 0 (Some (Wrapper 0)) (vectors world_init)\<rparr>)) = Inr None
   \<and> \<not> interruptible low_poll
   \<and> snd (DigitalInput_ctor uno 0 100 4 (Some (7 :: nat)) None 0 blank world_init) = Inr world_init
   \<and> DigitalInput_dtor uno low_poll world_init = world_init"
proof -
  have h1: "vectors world_init (digitalPinToInterrupt uno 4) = None" by (simp add: world_init_def)
  have h2: "digitalPinToInterrupt uno 4 < 0" by (simp add: uno_def)
  have h3: "0 \<le> digitalPinToInterrupt uno 2" by (simp add: uno_def)
  have i2: "digitalPinToInterrupt uno 2 = 0" by (simp add: uno_def)
  have pin: "GetPin low_irq = 2" by (simp add: GetPin_def low_irq_def ctor_fields)
  let ?v = "world_init\<lparr>vectors := attachInterrupt 0 (Some (Wrapper 0)) (vectors world_init)\<rparr>"
  note T = dtor_unbinds [OF h1 h2 h3, of low_irq ?v "Some (Wrapper 0)" 0 100 "Some (7 :: nat)" None 0
      blank world_init]
  have v0: "vectors ?v 0 = Some (Wrapper 0)" by (simp add: attachInterrupt_def)
  from T have t1: "vectors (DigitalInput_dtor uno low_irq ?v) 0 = None"
    unfolding pin i2 by blast
  from T have t2: "deliver 0 (DigitalInput_dtor uno low_irq ?v) = Inr None"
    unfolding pin i2 by blast
  from T have t3: "interruptible low_irq \<and> \<not> interruptible low_poll
      \<and> snd (DigitalInput_ctor uno 0 100 4 (Some (7 :: nat)) None 0 blank world_init) = Inr world_init
      \<and> DigitalInput_dtor uno low_poll world_init = world_init"
    unfolding low_irq_def [symmetric] low_poll_def [symmetric] by blast
  show ?thesis using h1 h2 h3 pin v0 t1 t2 t3 by blast
qed

section \<open>Interrupts during Step\<close>

lemma onto_onto: "onto a (onto b x) = onto (a @ b) x"
  by (cases x) auto

lemma for_loop_out:
  "n = nat (uint change - c) \<Longrightarrow>
     for_loop body c change s out = onto out (for_loop body c change s [])"
proof (induction n arbitrary: c s out)
  case 0
  then have "\<not> c < uint change" by simp
  then show ?case by (simp add: for_loop.simps)
next
  case (Suc n)
  then have lt: "c < uint change" by simp
  have n: "n = nat (uint change - (c + 1))" using Suc.prems by simp
  let ?s1 = "s\<lparr>syncState := \<not> syncState s\<rparr>"
  show ?case
  proof (cases "body ?s1")
    case (Inl e)
    then show ?thesis using lt by (simp add: for_loop.simps [of body c])
  next
    case (Inr k)
    show ?thesis
    proof (cases "c = INT_MAX")
      case True
      show ?thesis
        unfolding for_loop.simps [of body c change s out] for_loop.simps [of body c change s "[]"]
        using lt Inr True by simp
    next
      case False
      have a: "for_loop body c change s out = for_loop body (c + 1) change ?s1 (out @ [k])"
        using lt Inr False by (simp add: for_loop.simps [of body c])
      have b: "for_loop body c change s [] = for_loop body (c + 1) change ?s1 [k]"
        using lt Inr False by (simp add: for_loop.simps [of body c])
      show ?thesis
        unfolding a b Suc.IH [OF n, of ?s1 "out @ [k]"] Suc.IH [OF n, of ?s1 "[k]"]
        by (simp add: onto_onto)
    qed
  qed
qed

lemma finish_onto: "finish count (onto out x) = onto out (finish count x)"
  by (cases x) auto

lemma body_of_flip: "body_of (s\<lparr>syncState := b\<rparr>) = body_of s"
  by (simp add: body_of_def)

lemma Advance_all:
  "0 \<le> c \<Longrightarrow> c \<le> uint change \<Longrightarrow> n = nat (uint change - c) \<Longrightarrow> body = body_of s \<Longrightarrow>
     acts (replicate (Suc n) Advance) (s, Some (Frame count change c)) =
       finish count (for_loop body c change s [])"
proof (induction n arbitrary: c s)
  case 0
  then have "\<not> c < uint change" by simp
  then show ?case by (simp add: for_loop.simps)
next
  case (Suc n)
  then have lt: "c < uint change" by simp
  have n: "n = nat (uint change - (c + 1))" using Suc.prems by simp
  let ?s1 = "s\<lparr>syncState := \<not> syncState s\<rparr>"
  have bd: "(case function_ptr s of Some f \<Rightarrow> call_function f ?s1 | None \<Rightarrow> call_functionData ?s1)
      = body ?s1"
    using Suc.prems(4) by (simp add: body_of_def split: option.splits)
  show ?case
  proof (cases "body ?s1")
    case (Inl e)
    then show ?thesis using lt bd by (simp add: for_loop.simps [of body c])
  next
    case (Inr k)
    show ?thesis
    proof (cases "c = INT_MAX")
      case True
      have "for_loop body c change s [] = Inl SignedOverflow"
        unfolding for_loop.simps [of body c change s "[]"] using lt Inr True by simp
      moreover have "act Advance (s, Some (Frame count change c)) = Inl SignedOverflow"
        using lt Inr True bd by simp
      ultimately show ?thesis by simp
    next
      case False
      have ih: "acts (replicate (Suc n) Advance) (?s1, Some (Frame count change (c + 1))) =
          finish count (for_loop body (c + 1) change ?s1 [])"
        using Suc.prems lt by (intro Suc.IH n) (simp_all add: body_of_flip)
      have a: "act Advance (s, Some (Frame count change c)) =
          Inr ((?s1, Some (Frame count change (c + 1))), [k])"
        using lt Inr False bd by simp
      have b: "for_loop body c change s [] = onto [k] (for_loop body (c + 1) change ?s1 [])"
        using lt Inr False for_loop_out [OF n, of body ?s1 "[k]"]
        by (simp add: for_loop.simps [of body c])
      have "acts (replicate (Suc (Suc n)) Advance) (s, Some (Frame count change c)) =
          onto [k] (acts (replicate (Suc n) Advance) (?s1, Some (Frame count change (c + 1))))"
        unfolding replicate_Suc [of "Suc n"] acts.simps a
        by (cases "acts (replicate (Suc n) Advance) (?s1, Some (Frame count change (c + 1)))") auto
      then show ?thesis unfolding ih b finish_onto .
    qed
  qed
qed

text \<open>
  A call of \<^verbatim>\<open>Step\<close> that no interrupt preempts is \<open>Begin\<close> followed by one \<open>Advance\<close> for
  each round of the loop and one for the return.
\<close>

lemma Step_by_actions:
  "acts (Begin base # replicate (Suc (unat (snd (snd (reconcile base s))))) Advance) (s, None) =
     returned (Step base s)"
proof -
  obtain state count change where r: "reconcile base s = (state, count, change)"
    by (cases "reconcile base s") auto
  show ?thesis
  proof (cases "change > 0")
    case False
    then have "change = 0" by (simp add: word_gt_0)
    then show ?thesis by (simp add: r Step_def)
  next
    case True
    have loops: "(case function_ptr s of
                    Some f \<Rightarrow> for_loop (call_function f) 0 change s []
                  | None \<Rightarrow> for_loop call_functionData 0 change s []) =
        for_loop (body_of s) 0 change s []"
      by (simp add: body_of_def split: option.splits)
    have adv: "acts (replicate (Suc (unat change)) Advance) (s, Some (Frame count change 0)) =
        finish count (for_loop (body_of s) 0 change s [])"
      by (rule Advance_all) simp_all
    have b: "act (Begin base) (s, None) = Inr ((s, Some (Frame count change 0)), [])"
      using True by (simp add: r)
    have "acts (Begin base # replicate (Suc (unat change)) Advance) (s, None) =
        finish count (for_loop (body_of s) 0 change s [])"
      unfolding acts.simps b adv [symmetric]
      by (cases "acts (replicate (Suc (unat change)) Advance) (s, Some (Frame count change 0))") auto
    moreover have "Step base s =
        (case for_loop (body_of s) 0 change s [] of
           Inl e \<Rightarrow> Inl e
         | Inr (s1, out) \<Rightarrow> Inr (s1\<lparr>syncCount := count\<rparr>, out))"
      using True by (simp add: Step_def r loops)
    then have "returned (Step base s) = finish count (for_loop (body_of s) 0 change s [])"
      by (cases "for_loop (body_of s) 0 change s []") auto
    ultimately show ?thesis by (simp add: r)
  qed
qed

lemma word_le_Suc:
  fixes a :: "32 word"
  assumes "unat a + 1 < 2 ^ 32"
  shows "unat (a + 1) = unat a + 1" and "a \<le> a + 1"
proof -
  show u: "unat (a + 1) = unat a + 1"
    using assms by (simp add: unat_word_ariths)
  show "a \<le> a + 1" unfolding word_le_nat_alt u by simp
qed

lemma act_good:
  assumes g: "good x" and b: "unat (asyncCount (fst x)) + irqs [a] < 2 ^ 32"
    and r: "act a x = Inr (x', out)"
  shows "good x' \<and> unat (asyncCount (fst x')) = unat (asyncCount (fst x)) + irqs [a]
       \<and> syncCount (fst x) \<le> syncCount (fst x') \<and> asyncCount (fst x) \<le> asyncCount (fst x')"
proof -
  obtain s fr where x: "x = (s, fr)" by (cases x)
  show ?thesis
  proof (cases a)
    case (Irq rd)
    have i: "interruptible s" using g x by (cases fr rule: option.exhaust) (auto elim: good.elims)
    have bb: "unat (asyncCount s) + 1 < 2 ^ 32" using b Irq x by simp
    note w = word_le_Suc [OF bb]
    have x': "x' = (OnChange rd s, fr)" using r Irq x i by simp
    have le: "syncCount s \<le> asyncCount s + 1"
      using g x w(2) by (cases fr rule: option.exhaust) (auto elim!: good.elims)
    show ?thesis
    proof (cases fr)
      case None
      then show ?thesis using g x x' Irq w le by (simp add: OnChange_fields)
    next
      case (Some fr0)
      obtain count change c where fr0: "fr0 = Frame count change c" by (cases fr0)
      have "count \<le> asyncCount s" "syncCount s \<le> count" using g x Some fr0 by simp_all
      then show ?thesis using g x x' Irq w le Some fr0 by (auto simp: OnChange_fields)
    qed
  next
    case (Begin base)
    show ?thesis
    proof (cases fr)
      case None
      have i: "interruptible s" and le: "syncCount s \<le> asyncCount s" using g x None by simp_all
      show ?thesis
        using r x None Begin i le
        by (auto simp: reconcile_def split: if_splits)
    next
      case (Some fr0)
      then show ?thesis using r x Begin g by auto
    qed
  next
    case Advance
    show ?thesis
    proof (cases fr)
      case None
      then show ?thesis using r x Advance g by auto
    next
      case (Some fr0)
      obtain count change c where fr0: "fr0 = Frame count change c" by (cases fr0)
      have gs: "interruptible s" "syncCount s \<le> asyncCount s" "count \<le> asyncCount s" "syncCount s \<le> count"
        using g x Some fr0 by simp_all
      show ?thesis
        using r x Advance Some fr0 gs
        by (auto simp: Let_def split: if_splits sum.splits)
    qed
  qed
qed

lemma acts_good:
  "good x \<Longrightarrow> unat (asyncCount (fst x)) + irqs as < 2 ^ 32 \<Longrightarrow> acts as x = Inr (x', out) \<Longrightarrow>
     good x' \<and> unat (asyncCount (fst x')) = unat (asyncCount (fst x)) + irqs as
       \<and> syncCount (fst x) \<le> syncCount (fst x') \<and> asyncCount (fst x) \<le> asyncCount (fst x')"
proof (induction as arbitrary: x out)
  case Nil
  then show ?case by simp
next
  case (Cons a as)
  from Cons.prems(3) obtain x1 out1 out2 where
    a: "act a x = Inr (x1, out1)" and rest: "acts as x1 = Inr (x', out2)"
    by (auto split: sum.splits)
  have split: "irqs (a # as) = irqs [a] + irqs as" by (cases a) simp_all
  have b1: "unat (asyncCount (fst x)) + irqs [a] < 2 ^ 32" using Cons.prems(2) split by simp
  note one = act_good [OF Cons.prems(1) b1 a]
  have b2: "unat (asyncCount (fst x1)) + irqs as < 2 ^ 32" using one Cons.prems(2) split by simp
  note more = Cons.IH [OF _ b2 rest]
  show ?case using one more split by auto
qed

lemma irqs_append: "irqs (as @ bs) = irqs as + irqs bs"
proof (induction as)
  case Nil
  then show ?case by simp
next
  case (Cons a as)
  then show ?case by (cases a) simp_all
qed

lemma low_irq_more:
  "function_ptr low_irq = Some 7" "functionData low_irq = None" "data low_irq = 0"
  by (simp_all add: low_irq_def ctor_fields)

lemma for_loop_keeps:
  "n = nat (uint change - c) \<Longrightarrow> for_loop body c change s out = Inr (s', out') \<Longrightarrow>
     s' = s\<lparr>syncState := syncState s'\<rparr>"
proof (induction n arbitrary: c s out)
  case 0
  then have "\<not> c < uint change" by simp
  then show ?case using 0 by (simp add: for_loop.simps)
next
  case (Suc n)
  then have lt: "c < uint change" by simp
  have n: "n = nat (uint change - (c + 1))" using Suc.prems by simp
  let ?s1 = "s\<lparr>syncState := \<not> syncState s\<rparr>"
  from Suc.prems(2) lt obtain k where
    rec: "for_loop body (c + 1) change ?s1 (out @ [k]) = Inr (s', out')"
    unfolding for_loop.simps [of body c change s out]
    by (auto simp: Let_def split: sum.splits if_splits)
  have "s' = ?s1\<lparr>syncState := syncState s'\<rparr>" by (rule Suc.IH [OF n rec])
  then show ?case by simp
qed

lemma Step_interrupt_counts:
  assumes i: "interruptible s" and r: "Step base s = Inr (s1, out)"
  shows "syncCount s1 = asyncCount s \<and> asyncCount s1 = asyncCount s"
proof (cases "0 < asyncCount s - syncCount s")
  case False
  then have "asyncCount s = syncCount s" by (simp add: word_gt_0)
  then show ?thesis using r i by (simp add: Step_def reconcile_def)
next
  case True
  let ?ch = "asyncCount s - syncCount s"
  have loops: "(case function_ptr s of
                    Some f \<Rightarrow> for_loop (call_function f) 0 ?ch s []
                  | None \<Rightarrow> for_loop call_functionData 0 ?ch s []) =
        for_loop (body_of s) 0 ?ch s []"
    by (simp add: body_of_def split: option.splits)
  from r i True obtain s2 where
    l: "for_loop (body_of s) 0 ?ch s [] = Inr (s2, out)" and s1: "s1 = s2\<lparr>syncCount := asyncCount s\<rparr>"
    by (auto simp: Step_def reconcile_def loops split: sum.splits)
  have "s2 = s\<lparr>syncState := syncState s2\<rparr>" by (rule for_loop_keeps [OF refl l])
  then have "asyncCount s2 = asyncCount (s\<lparr>syncState := syncState s2\<rparr>)" by (rule arg_cong)
  then have "asyncCount s2 = asyncCount s" by simp
  then show ?thesis using s1 by simp
qed

lemma acts_append:
  "acts (as @ bs) x =
     (case acts as x of Inl e \<Rightarrow> Inl e | Inr (x1, out1) \<Rightarrow> onto out1 (acts bs x1))"
proof (induction as arbitrary: x)
  case Nil
  show ?case by (cases "acts bs x") auto
next
  case (Cons a as)
  show ?case
  proof (cases "act a x")
    case (Inl e)
    then show ?thesis by simp
  next
    case (Inr r)
    obtain x1 out1 where r: "r = (x1, out1)" by (cases r)
    show ?thesis
    proof (cases "acts as x1")
      case (Inl e)
      then show ?thesis using Inr r Cons.IH [of x1] by simp
    next
      case (Inr r2)
      obtain x2 out2 where r2: "r2 = (x2, out2)" by (cases r2)
      show ?thesis
        using \<open>act a x = Inr r\<close> r Inr r2 Cons.IH [of x1]
        by (cases "acts bs x2") auto
    qed
  qed
qed

lemma acts_Irqs:
  "interruptible s \<Longrightarrow> acts (map Irq rs) (s, fr) = Inr ((fold OnChange rs s, fr), [])"
  by (induction rs arbitrary: s) (simp_all add: OnChange_fields)

lemma fold_OnChange_counts:
  "asyncCount (fold OnChange rs s) = asyncCount s + of_nat (length rs)"
  "syncCount (fold OnChange rs s) = syncCount s"
  by (induction rs arbitrary: s) (simp_all add: OnChange_fields)

lemma good_ctor:
  "0 \<le> digitalPinToInterrupt P p \<Longrightarrow> good (fst (DigitalInput_ctor P base this p f g d raw w), None)"
  by (simp add: ctor_fields ctor_async)

lemma low_poll_async: "asyncCount low_poll = 0"
  by (simp add: low_poll_def ctor_instance uno_def blank_def)

text \<open>
  C5, as the code has it.  For an instance constructed in interrupt-driven mode, in every
  state reached by any interleaving of interrupt-side updates with the steps of Step
  calls, as long as fewer than \<open>2 ^ 32 - 1\<close> interrupt-side updates have run (the 32-bit
  \<open>asyncCount\<close>, which starts at 1, has not wrapped): \<open>syncCount \<le> asyncCount\<close>; neither
  counter is smaller in a later state; the count a Step call in progress holds is the
  \<open>asyncCount\<close> it read at its start, lies between \<open>syncCount\<close> and \<open>asyncCount\<close>, and is
  what the call stores in \<open>syncCount\<close> when it returns; and a Step call that nothing
  preempts returns with \<open>syncCount\<close> equal to the \<open>asyncCount\<close> it found.
\<close>

theorem counters_until_wrap:
  assumes "0 \<le> digitalPinToInterrupt P p"
    and "acts as (fst (DigitalInput_ctor P base this p f g d raw w), None) = Inr ((s, fr), out)"
    and "acts as' (s, fr) = Inr ((s', fr'), out')"
    and "irqs (as @ as') < 2 ^ 32 - 1"
  shows "syncCount s \<le> asyncCount s
       \<and> unat (asyncCount s) = 1 + irqs as
       \<and> syncCount s \<le> syncCount s' \<and> asyncCount s \<le> asyncCount s'
       \<and> (\<forall>count change c. fr = Some (Frame count change c) \<longrightarrow>
            syncCount s \<le> count \<and> count \<le> asyncCount s
            \<and> (\<not> c < uint change \<longrightarrow>
                 act Advance (s, fr) = Inr ((s\<lparr>syncCount := count\<rparr>, None), [])))
       \<and> (fr = None \<longrightarrow>
            act (Begin b) (s, fr) =
              Inr ((s, if 0 < asyncCount s - syncCount s
                       then Some (Frame (asyncCount s) (asyncCount s - syncCount s) 0)
                       else None), []))
       \<and> (\<forall>s1 out1. Step b s = Inr (s1, out1) \<longrightarrow>
            syncCount s1 = asyncCount s \<and> asyncCount s1 = asyncCount s)"
proof -
  let ?s0 = "fst (DigitalInput_ctor P base this p f g d raw w)"
  have a0: "unat (asyncCount ?s0) = 1" using assms(1) by (simp add: ctor_async)
  have b1: "unat (asyncCount (fst (?s0, None :: frame option))) + irqs as < 2 ^ 32"
    using assms(4) a0 by (simp add: irqs_append)
  note one = acts_good [OF good_ctor [OF assms(1)] b1 assms(2)]
  have g: "good (s, fr)" and a: "unat (asyncCount s) = 1 + irqs as"
    using one a0 by simp_all
  have b2: "unat (asyncCount (fst (s, fr))) + irqs as' < 2 ^ 32"
    using assms(4) a by (simp add: irqs_append)
  note two = acts_good [OF g b2 assms(3)]
  have i: "interruptible s" and le: "syncCount s \<le> asyncCount s"
    using g by (cases fr rule: option.exhaust; auto elim: good.elims)+
  have fr: "syncCount s \<le> count \<and> count \<le> asyncCount s
            \<and> (\<not> c < uint change \<longrightarrow>
                 act Advance (s, fr) = Inr ((s\<lparr>syncCount := count\<rparr>, None), []))"
    if "fr = Some (Frame count change c)" for count change c
    using g that by simp
  have idle: "act (Begin b) (s, fr) =
              Inr ((s, if 0 < asyncCount s - syncCount s
                       then Some (Frame (asyncCount s) (asyncCount s - syncCount s) 0)
                       else None), [])" if "fr = None"
    using that i by (simp add: reconcile_def)
  show ?thesis
    using le a two fr idle Step_interrupt_counts [OF i] by auto
qed

theorem counters_until_wrap_witness:
  "0 \<le> digitalPinToInterrupt uno 2
   \<and> acts [Begin 0, Irq 4, Advance, Irq 0, Advance] (low_irq, None) =
       Inr ((low_irq\<lparr>syncState := False, asyncState := False, asyncCount := 3, syncCount := 1\<rparr>,
             None), [Call_function 7 False])
   \<and> acts [Begin 0, Irq 4, Advance]
        (low_irq\<lparr>syncState := False, asyncState := False, asyncCount := 3, syncCount := 1\<rparr>, None) =
       Inr ((low_irq\<lparr>syncState := True, asyncState := True, asyncCount := 4, syncCount := 1\<rparr>,
             Some (Frame 3 2 1)), [Call_function 7 True])
   \<and> irqs ([Begin 0, Irq 4, Advance, Irq 0, Advance] @ [Begin 0, Irq 4, Advance]) < 2 ^ 32 - 1
   \<and> syncCount (low_irq\<lparr>syncState := False, asyncState := False, asyncCount := 3, syncCount := 1\<rparr>)
       \<le> asyncCount (low_irq\<lparr>syncState := False, asyncState := False, asyncCount := 3, syncCount := 1\<rparr>)
   \<and> unat (asyncCount (low_irq\<lparr>syncState := False, asyncState := False, asyncCount := 3,
                                  syncCount := 1\<rparr>)) = 1 + irqs [Begin 0, Irq 4, Advance, Irq 0, Advance]"
proof -
  let ?s = "low_irq\<lparr>syncState := False, asyncState := False, asyncCount := 3, syncCount := 1\<rparr>"
  let ?s' = "low_irq\<lparr>syncState := True, asyncState := True, asyncCount := 4, syncCount := 1\<rparr>"
  have h1: "0 \<le> digitalPinToInterrupt uno 2" by (simp add: uno_def)
  have h2: "acts [Begin 0, Irq 4, Advance, Irq 0, Advance]
      (fst (DigitalInput_ctor uno 0 100 2 (Some 7) None 0 blank world_init), None) =
       Inr ((?s, None), [Call_function 7 False])"
    unfolding low_irq_def [symmetric]
    by (simp add: low_irq_facts low_irq_more reconcile_def OnChange_def call_function_def
        INT_MAX_def BRIDGE_READ_def)
  have h3: "acts [Begin 0, Irq 4, Advance] (?s, None) =
       Inr ((?s', Some (Frame 3 2 1)), [Call_function 7 True])"
    by (simp add: low_irq_facts low_irq_more reconcile_def OnChange_def call_function_def
        INT_MAX_def BRIDGE_READ_def)
  have h4: "irqs ([Begin 0, Irq 4, Advance, Irq 0, Advance] @ [Begin 0, Irq 4, Advance]) < 2 ^ 32 - 1"
    by simp
  show ?thesis
    using counters_until_wrap [OF h1 h2 h3 h4] h1 h2 h3 h4
    unfolding low_irq_def [symmetric] by simp
qed

text \<open>
  Against C5 as stated.  A polling-only instance never assigns \<open>asyncCount\<close>: built in
  zeroed storage, pin 4 has \<open>syncCount = 1\<close> and \<open>asyncCount = 0\<close> after its first Step.
  On the interrupt-driven pin 2, after one Step and \<open>2 ^ 32 - 1\<close> interrupt-side updates
  \<open>asyncCount\<close> has gone from 4294967295 to 0, below \<open>syncCount = 1\<close>.
\<close>

theorem counters_counterexample:
  "Step 0 low_poll = Inr (low_poll\<lparr>syncState := False, syncCount := 1\<rparr>, [Call_function 7 False])
   \<and> syncCount (low_poll\<lparr>syncState := False, syncCount := 1\<rparr>) = 1
   \<and> asyncCount (low_poll\<lparr>syncState := False, syncCount := 1\<rparr>) = 0
   \<and> \<not> syncCount (low_poll\<lparr>syncState := False, syncCount := 1\<rparr>)
         \<le> asyncCount (low_poll\<lparr>syncState := False, syncCount := 1\<rparr>)
   \<and> acts ([Begin 0, Advance, Advance] @ map Irq (replicate 4294967295 4)) (low_irq, None) =
       Inr ((fold OnChange (replicate 4294967295 4) (low_irq\<lparr>syncState := False, syncCount := 1\<rparr>),
             None), [Call_function 7 False])
   \<and> syncCount (fold OnChange (replicate 4294967295 4) (low_irq\<lparr>syncState := False, syncCount := 1\<rparr>)) = 1
   \<and> asyncCount (fold OnChange (replicate 4294967294 4) (low_irq\<lparr>syncState := False, syncCount := 1\<rparr>))
       = 4294967295
   \<and> asyncCount (fold OnChange (replicate 4294967295 4) (low_irq\<lparr>syncState := False, syncCount := 1\<rparr>)) = 0
   \<and> \<not> syncCount (fold OnChange (replicate 4294967295 4) (low_irq\<lparr>syncState := False, syncCount := 1\<rparr>))
         \<le> asyncCount (fold OnChange (replicate 4294967295 4) (low_irq\<lparr>syncState := False, syncCount := 1\<rparr>))"
proof -
  let ?s = "low_irq\<lparr>syncState := False, syncCount := 1\<rparr>"
  have p: "\<not> interruptible low_poll" by (simp add: low_poll_facts)
  have d: "BRIDGE_READ 0 (bitmask low_poll) \<noteq> syncState low_poll"
    by (simp add: low_poll_facts BRIDGE_READ_def)
  have s1: "Step 0 low_poll = Inr (low_poll\<lparr>syncState := False, syncCount := 1\<rparr>, [Call_function 7 False])"
    by (simp add: Step_polling_differ [OF p d low_poll_facts(2)] low_poll_facts BRIDGE_READ_def)
  have first: "acts [Begin 0, Advance, Advance] (low_irq, None) = Inr ((?s, None), [Call_function 7 False])"
    by (simp add: low_irq_facts low_irq_more reconcile_def call_function_def INT_MAX_def)
  have i: "interruptible ?s" by (simp add: low_irq_facts)
  have run: "acts ([Begin 0, Advance, Advance] @ map Irq (replicate 4294967295 4)) (low_irq, None) =
       Inr ((fold OnChange (replicate 4294967295 4) ?s, None), [Call_function 7 False])"
    by (simp only: acts_append first sum.case prod.case acts_Irqs [OF i] onto.simps append_Nil2)
  have sc: "syncCount (fold OnChange (replicate 4294967295 4) ?s) = 1"
    by (simp add: fold_OnChange_counts del: fold_replicate)
  have ac: "asyncCount (fold OnChange (replicate 4294967295 4) ?s) = 0"
    by (simp add: fold_OnChange_counts low_irq_facts del: fold_replicate)
  have ac': "asyncCount (fold OnChange (replicate 4294967294 4) ?s) = 4294967295"
    by (simp add: fold_OnChange_counts low_irq_facts del: fold_replicate)
  show ?thesis
    unfolding run s1 sc ac ac' by (simp add: low_poll_async)
qed

end
